theory Spec2Isabelle
  imports Main
begin

section \<open>JavaScript strings\<close>

text \<open>
  A JavaScript string is the list of its UTF-16 code units, each a natural number.
  Every character that the sources name in a table, a regular expression or a
  replacement token is a single code unit below 256; input texts are arbitrary.
  \<open>js\<close> turns an ASCII literal of the theory into such a string.
\<close>

type_synonym jsstring = "nat list"

definition js :: "string \<Rightarrow> jsstring" where
  "js s = map of_char s"

text \<open>
  \<open>String.prototype.startsWith\<close> and \<open>String.prototype.includes\<close> (the latter
  named \<open>includesJs\<close>, the bare word being reserved).
\<close>

fun startsWith :: "jsstring \<Rightarrow> jsstring \<Rightarrow> bool" where
  "startsWith s [] = True"
| "startsWith [] (n # ns) = False"
| "startsWith (c # cs) (n # ns) = (c = n \<and> startsWith cs ns)"

fun includesJs :: "jsstring \<Rightarrow> jsstring \<Rightarrow> bool" where
  "includesJs [] n = (n = [])"
| "includesJs (c # cs) n = (startsWith (c # cs) n \<or> includesJs cs n)"

text \<open>
  \<open>String.prototype.toUpperCase\<close> maps the text character by character, each to a
  sequence of characters (\<open>U+00DF\<close> becomes \<open>SS\<close>). On ASCII it maps \<open>a..z\<close> to
  \<open>A..Z\<close> and fixes everything else; beyond ASCII it follows the Unicode case tables of
  the engine, which are no part of the repository: they are the parameter \<open>up\<close>.
  An ASCII character is never half of a surrogate pair, so it is always mapped on its own.
\<close>

definition upperAscii :: "nat \<Rightarrow> nat" where
  "upperAscii c = (if 97 \<le> c \<and> c \<le> 122 then c - 32 else c)"

definition toUpperCase :: "(nat \<Rightarrow> jsstring) \<Rightarrow> jsstring \<Rightarrow> jsstring" where
  "toUpperCase up s = concat (map (\<lambda>c. if c < 128 then [upperAscii c] else up c) s)"


section \<open>Bank detection\<close>

text \<open>\<open>detectBankType\<close> of the normalisation library: an \<open>if / else if\<close> chain.\<close>

definition detectBankType :: "(nat \<Rightarrow> jsstring) \<Rightarrow> jsstring \<Rightarrow> jsstring" where
  "detectBankType up text =
     (let textUpper = toUpperCase up text in
      if includesJs textUpper (js ''HSBC'') \<or> includesJs textUpper (js ''2NOW'') then js ''HSBC''
      else if includesJs textUpper (js ''BBVA'') \<or> includesJs textUpper (js ''BANCOMER'') then js ''BBVA''
      else if includesJs textUpper (js ''SANTANDER'') then js ''SANTANDER''
      else if includesJs textUpper (js ''BANORTE'') then js ''BANORTE''
      else if includesJs textUpper (js ''BANAMEX'') \<or> includesJs textUpper (js ''CITIBANAMEX'')
        then js ''CITIBANAMEX''
      else js ''Desconocido'')"

text \<open>
  \<open>detectBankFromContent\<close> of the extraction and OCR services: a sequence of
  \<open>if (...) return\<close> statements, each an early return.
\<close>

definition detectBankFromContent :: "(nat \<Rightarrow> jsstring) \<Rightarrow> jsstring \<Rightarrow> jsstring" where
  "detectBankFromContent up text =
     (let upperText = toUpperCase up text in
      case (if includesJs upperText (js ''HSBC'') \<or> includesJs upperText (js ''2NOW'')
            then Some (js ''HSBC'') else None) of
        Some r \<Rightarrow> r
      | None \<Rightarrow>
      (case (if includesJs upperText (js ''BBVA'') \<or> includesJs upperText (js ''BANCOMER'')
             then Some (js ''BBVA'') else None) of
        Some r \<Rightarrow> r
      | None \<Rightarrow>
      (case (if includesJs upperText (js ''SANTANDER'') then Some (js ''SANTANDER'') else None) of
        Some r \<Rightarrow> r
      | None \<Rightarrow>
      (case (if includesJs upperText (js ''BANORTE'') then Some (js ''BANORTE'') else None) of
        Some r \<Rightarrow> r
      | None \<Rightarrow>
      (case (if includesJs upperText (js ''BANAMEX'') \<or> includesJs upperText (js ''CITIBANAMEX'')
             then Some (js ''CITIBANAMEX'') else None) of
        Some r \<Rightarrow> r
      | None \<Rightarrow> js ''Desconocido'')))))"


section \<open>Regular expressions\<close>

text \<open>
  The regular expressions of the sources are written with the combinators below, one
  combinator for each construct of the literal. A matcher runs as the backtracking
  matcher of ECMAScript does: it takes the state (the character before the current
  position, if any, and the rest of the input) and a continuation, and answers with the
  first success in priority order. A greedy quantifier tries one more iteration before
  its continuation, a lazy one tries its continuation first. The final continuation
  answers the input that is left, so that the length of the match is known.
\<close>

type_synonym mstate = "nat option \<times> jsstring"
type_synonym rx = "mstate \<Rightarrow> (mstate \<Rightarrow> jsstring option) \<Rightarrow> jsstring option"

text \<open>The character classes \<open>\d\<close>, \<open>\w\<close>, \<open>[ -]\<close>, \<open>[a-zA-Z]\<close> and \<open>\s\<close>.\<close>

definition isDigit :: "nat \<Rightarrow> bool" where
  "isDigit c = (48 \<le> c \<and> c \<le> 57)"

definition isLetter :: "nat \<Rightarrow> bool" where
  "isLetter c = ((65 \<le> c \<and> c \<le> 90) \<or> (97 \<le> c \<and> c \<le> 122))"

definition isWordChar :: "nat \<Rightarrow> bool" where
  "isWordChar c = (isLetter c \<or> isDigit c \<or> c = 95)"

definition isSep :: "nat \<Rightarrow> bool" where
  "isSep c = (c = 32 \<or> c = 45)"

definition isSpace :: "nat \<Rightarrow> bool" where
  "isSpace c = ((9 \<le> c \<and> c \<le> 13) \<or> c = 32 \<or> c = 160 \<or> c = 5760
     \<or> (8192 \<le> c \<and> c \<le> 8202) \<or> c = 8232 \<or> c = 8233 \<or> c = 8239 \<or> c = 8287
     \<or> c = 12288 \<or> c = 65279)"

fun wordBefore :: "nat option \<Rightarrow> bool" where
  "wordBefore None = False"
| "wordBefore (Some c) = isWordChar c"

fun wordAfter :: "jsstring \<Rightarrow> bool" where
  "wordAfter [] = False"
| "wordAfter (c # cs) = isWordChar c"

text \<open>One character of a class; the assertion \<open>\b\<close>; sequence.\<close>

fun cls :: "(nat \<Rightarrow> bool) \<Rightarrow> rx" where
  "cls P (p, []) k = None"
| "cls P (p, c # cs) k = (if P c then k (Some c, cs) else None)"

fun wordb :: rx where
  "wordb (p, s) k = (if wordBefore p \<noteq> wordAfter s then k (p, s) else None)"

definition sq :: "rx \<Rightarrow> rx \<Rightarrow> rx" where
  "sq a b = (\<lambda>st k. a st (\<lambda>st'. b st' k))"

text \<open>\<open>[...]*?\<close> and \<open>[...]*\<close> over a character class, and \<open>[...]+\<close>.\<close>

fun lazyStar :: "(nat \<Rightarrow> bool) \<Rightarrow> rx" where
  "lazyStar P (p, []) k = k (p, [])"
| "lazyStar P (p, c # cs) k =
     (case k (p, c # cs) of
        Some r \<Rightarrow> Some r
      | None \<Rightarrow> if P c then lazyStar P (Some c, cs) k else None)"

fun greedyStar :: "(nat \<Rightarrow> bool) \<Rightarrow> rx" where
  "greedyStar P (p, []) k = k (p, [])"
| "greedyStar P (p, c # cs) k =
     (if P c
      then (case greedyStar P (Some c, cs) k of Some r \<Rightarrow> Some r | None \<Rightarrow> k (p, c # cs))
      else k (p, c # cs))"

definition plusCls :: "(nat \<Rightarrow> bool) \<Rightarrow> rx" where
  "plusCls P = sq (cls P) (greedyStar P)"

text \<open>
  \<open>a{n}\<close> is \<open>iter n a\<close>; the greedy \<open>a{lo,hi}\<close> is \<open>lo\<close> iterations followed by up
  to \<open>hi - lo\<close> more, each tried before the continuation; \<open>a?\<close> is \<open>a{0,1}\<close>. No
  iteration of the sources can match the empty string.
\<close>

primrec iter :: "nat \<Rightarrow> rx \<Rightarrow> rx" where
  "iter 0 a = (\<lambda>st k. k st)"
| "iter (Suc n) a = (\<lambda>st k. a st (\<lambda>st'. iter n a st' k))"

primrec iterUpto :: "nat \<Rightarrow> rx \<Rightarrow> rx" where
  "iterUpto 0 a = (\<lambda>st k. k st)"
| "iterUpto (Suc n) a =
     (\<lambda>st k. case a st (\<lambda>st'. iterUpto n a st' k) of Some r \<Rightarrow> Some r | None \<Rightarrow> k st)"

definition repeatRx :: "nat \<Rightarrow> nat \<Rightarrow> rx \<Rightarrow> rx" where
  "repeatRx lo hi a = sq (iter lo a) (iterUpto (hi - lo) a)"

definition optional :: "rx \<Rightarrow> rx" where
  "optional a = iterUpto 1 a"

text \<open>A literal; a literal letter under the flag \<open>i\<close> (an ASCII letter matches its two cases).\<close>

primrec lit :: "jsstring \<Rightarrow> rx" where
  "lit [] = (\<lambda>st k. k st)"
| "lit (x # xs) = sq (cls (\<lambda>c. c = x)) (lit xs)"

definition clsI :: "nat \<Rightarrow> rx" where
  "clsI x = cls (\<lambda>c. upperAscii c = upperAscii x \<and> c < 128)"

text \<open>One attempt of the expression at a position: the length of the match.\<close>

definition exec :: "rx \<Rightarrow> nat option \<Rightarrow> jsstring \<Rightarrow> nat option" where
  "exec r p s =
     (case r (p, s) (\<lambda>(p', s'). Some s') of
        Some s' \<Rightarrow> Some (length s - length s')
      | None \<Rightarrow> None)"

text \<open>
  \<open>String.prototype.replace\<close> with a global expression. The matcher \<open>m\<close> answers, at a
  position, the length of the match and its replacement. The scan goes from left to
  right: \<open>p\<close> is the character before the position, \<open>k\<close> the number of characters of
  the last match still to be skipped. After a match the scan goes on behind it; an empty
  match is replaced and the scan moves on by one character.
\<close>

type_synonym matcher = "nat option \<Rightarrow> jsstring \<Rightarrow> (nat \<times> jsstring) option"

fun scan :: "matcher \<Rightarrow> nat option \<Rightarrow> nat \<Rightarrow> jsstring \<Rightarrow> jsstring" where
  "scan m p 0 [] = (case m p [] of Some (n, r) \<Rightarrow> r | None \<Rightarrow> [])"
| "scan m p (Suc k) [] = []"
| "scan m p (Suc k) (c # cs) = scan m (Some c) k cs"
| "scan m p 0 (c # cs) =
     (case m p (c # cs) of
        None \<Rightarrow> c # scan m (Some c) 0 cs
      | Some (n, r) \<Rightarrow>
          (case n of
             0 \<Rightarrow> r @ c # scan m (Some c) 0 cs
           | Suc n' \<Rightarrow> r @ scan m (Some c) n' cs))"

definition constRule :: "rx \<Rightarrow> jsstring \<Rightarrow> matcher" where
  "constRule r tok = (\<lambda>p s. case exec r p s of Some n \<Rightarrow> Some (n, tok) | None \<Rightarrow> None)"

definition replaceAll :: "rx \<Rightarrow> jsstring \<Rightarrow> jsstring \<Rightarrow> jsstring" where
  "replaceAll r tok text = scan (constRule r tok) None 0 text"


section \<open>Redaction of personal data\<close>

text \<open>
  The five expressions of \<open>sanitizePersonalData\<close>:
  \<^verbatim>\<open>/\b(?:\d[ -]*?){13,16}\b/g\<close>, \<^verbatim>\<open>/\b\d{10,20}\b/g\<close>, \<^verbatim>\<open>/\b\d{18}\b/g\<close>,
  \<^verbatim>\<open>/[a-zA-Z0-9._%+-]+@[a-zA-Z0-9.-]+\.[a-zA-Z]{2,}/g\<close> and the expression for the
  holder's name, whose classes \<open>[A-Z...]\<close> and \<open>[a-z...]\<close> add the six accented
  Spanish letters of each case.
\<close>

definition creditCardRegex :: rx where
  "creditCardRegex = sq wordb (sq (repeatRx 13 16 (sq (cls isDigit) (lazyStar isSep))) wordb)"

definition accountNumberRegex :: rx where
  "accountNumberRegex = sq wordb (sq (repeatRx 10 20 (cls isDigit)) wordb)"

definition clabeRegex :: rx where
  "clabeRegex = sq wordb (sq (iter 18 (cls isDigit)) wordb)"

definition isLocalChar :: "nat \<Rightarrow> bool" where
  "isLocalChar c = (isLetter c \<or> isDigit c \<or> c = 46 \<or> c = 95 \<or> c = 37 \<or> c = 43 \<or> c = 45)"

definition isDomainChar :: "nat \<Rightarrow> bool" where
  "isDomainChar c = (isLetter c \<or> isDigit c \<or> c = 46 \<or> c = 45)"

definition emailRegex :: rx where
  "emailRegex =
     sq (plusCls isLocalChar) (sq (cls (\<lambda>c. c = 64)) (sq (plusCls isDomainChar)
       (sq (cls (\<lambda>c. c = 46)) (sq (iter 2 (cls isLetter)) (greedyStar isLetter)))))"

definition isNameUpper :: "nat \<Rightarrow> bool" where
  "isNameUpper c = ((65 \<le> c \<and> c \<le> 90) \<or> c \<in> {193, 201, 205, 211, 218, 209})"

definition isNameLower :: "nat \<Rightarrow> bool" where
  "isNameLower c = ((97 \<le> c \<and> c \<le> 122) \<or> c \<in> {225, 233, 237, 243, 250, 241})"

definition nameWord :: rx where
  "nameWord = sq (cls isNameUpper) (plusCls isNameLower)"

definition nameRegex :: rx where
  "nameRegex =
     sq (lit (js ''Titular'')) (sq (optional (cls (\<lambda>c. c = 58))) (sq (greedyStar isSpace)
       (sq nameWord (sq (plusCls isSpace) (sq nameWord (optional (sq (plusCls isSpace) nameWord)))))))"

text \<open>The replacement tokens; code unit 218 is the accented capital U.\<close>

definition cardToken :: jsstring where
  "cardToken = js ''[N'' @ [218] @ js ''MERO DE TARJETA REDACTADO]''"

definition accountToken :: jsstring where
  "accountToken = js ''[N'' @ [218] @ js ''MERO DE CUENTA REDACTADO]''"

definition clabeToken :: jsstring where
  "clabeToken = js ''[CLABE REDACTADA]''"

definition emailToken :: jsstring where
  "emailToken = js ''[CORREO REDACTADO]''"

definition nameToken :: jsstring where
  "nameToken = js ''Titular: [NOMBRE REDACTADO]''"

text \<open>
  The first three statements of the function, shared by its two copies: card numbers,
  then account numbers, then CLABE.
\<close>

definition redactDigits :: "jsstring \<Rightarrow> jsstring" where
  "redactDigits text =
     (let text = replaceAll creditCardRegex cardToken text;
          text = replaceAll accountNumberRegex accountToken text;
          text = replaceAll clabeRegex clabeToken text
      in text)"

text \<open>\<open>sanitizePersonalData\<close> of the normalisation library: five replacements in a row.\<close>

definition sanitizePersonalData :: "jsstring \<Rightarrow> jsstring" where
  "sanitizePersonalData text =
     (let text = replaceAll creditCardRegex cardToken text;
          text = replaceAll accountNumberRegex accountToken text;
          text = replaceAll clabeRegex clabeToken text;
          text = replaceAll emailRegex emailToken text;
          text = replaceAll nameRegex nameToken text
      in text)"

text \<open>
  \<open>sanitizePersonalData\<close> of the simple extractor: an empty text is answered at once,
  and there is no rule for the holder's name.
\<close>

definition sanitizePersonalData_simple :: "jsstring \<Rightarrow> jsstring" where
  "sanitizePersonalData_simple text =
     (if text = [] then []
      else let text = replaceAll creditCardRegex cardToken text;
               text = replaceAll accountNumberRegex accountToken text;
               text = replaceAll clabeRegex clabeToken text;
               text = replaceAll emailRegex emailToken text
           in text)"


section \<open>Remote OCR: events, errors, responses\<close>

text \<open>
  The remote OCR code talks to the page renderer, to the image encoder of the browser
  and to the OCR service. What these do is no part of the repository: the functions
  below take it as parameters, and record what the code asks of them in a trace of
  events, in the order of the calls. \<open>Render i\<close> is the rendering of page \<open>i\<close>,
  \<open>Compress x\<close> a compression attempt on \<open>x\<close>, \<open>Send x\<close> the transmission of the payload
  \<open>x\<close> to the service, \<open>Sleep n\<close> a wait of \<open>n\<close> milliseconds. Every \<open>throw\<close> and
  every rejected promise of the source is an error value; progress messages are left out.
\<close>

datatype 'a event = Render nat | Compress 'a | Send 'a | Sleep nat

datatype ocrError =
    InvalidImageData | RequestFailed | ApiStatusError | OcrProcessingError | NoParsedText
  | RenderFailed | CompressFailed | TooLargeAfterCompress | TooLargeToProcess

record response =
  ok :: bool
  isErroredOnProcessing :: bool
  parsedResults :: "jsstring list"

text \<open>
  The answer of the service to one request, as far as the code reads it: the HTTP status
  flag, \<open>IsErroredOnProcessing\<close> and the \<open>ParsedText\<close> of each of the \<open>ParsedResults\<close>.
  The network is a function from the number of requests made so far to the outcome of
  the next one, \<open>Inl\<close> when \<open>fetch\<close> or \<open>json\<close> rejects.
\<close>

fun isSend :: "'a event \<Rightarrow> bool" where
  "isSend (Send x) = True"
| "isSend e = False"

definition requests :: "'a event list \<Rightarrow> nat" where
  "requests tr = length (filter isSend tr)"


section \<open>The OCR client of the utilities: retries and the page cap\<close>

text \<open>\<open>imageBase64.split(',')[1]\<close>: the field behind the first comma, if there is one.\<close>

definition base64Data :: "jsstring \<Rightarrow> jsstring option" where
  "base64Data s =
     (case dropWhile (\<lambda>c. c \<noteq> 44) s of
        [] \<Rightarrow> None
      | comma # rest \<Rightarrow> Some (takeWhile (\<lambda>c. c \<noteq> 44) rest))"

text \<open>
  The \<open>try\<close> block of \<open>extractTextFromImage\<close>: no request is made for an image
  without data; otherwise one request is made and its answer read.
\<close>

definition readResponse :: "ocrError + response \<Rightarrow> ocrError + jsstring" where
  "readResponse x =
     (case x of
        Inl e \<Rightarrow> Inl e
      | Inr r \<Rightarrow>
          if \<not> ok r then Inl ApiStatusError
          else if isErroredOnProcessing r then Inl OcrProcessingError
          else (case parsedResults r of [] \<Rightarrow> Inl NoParsedText | t # ts \<Rightarrow> Inr t))"

definition requestOcr ::
  "(nat \<Rightarrow> ocrError + response) \<Rightarrow> jsstring \<Rightarrow> jsstring event list
     \<Rightarrow> (ocrError + jsstring) \<times> jsstring event list" where
  "requestOcr net imageBase64 tr =
     (case base64Data imageBase64 of
        None \<Rightarrow> (Inl InvalidImageData, tr)
      | Some d \<Rightarrow>
          if d = [] then (Inl InvalidImageData, tr)
          else (readResponse (net (requests tr)), tr @ [Send d]))"

text \<open>
  \<open>extractTextFromImage\<close>: the \<open>catch\<close> block waits one second and calls the function
  again with \<open>retryCount + 1\<close> while \<open>retryCount < 2\<close>, and throws the error otherwise.
\<close>

function extractTextFromImage ::
  "(nat \<Rightarrow> ocrError + response) \<Rightarrow> jsstring \<Rightarrow> nat \<Rightarrow> jsstring event list
     \<Rightarrow> (ocrError + jsstring) \<times> jsstring event list" where
  "extractTextFromImage net imageBase64 retryCount tr =
     (case requestOcr net imageBase64 tr of
        (Inr text, tr') \<Rightarrow> (Inr text, tr')
      | (Inl error, tr') \<Rightarrow>
          if retryCount < 2
          then extractTextFromImage net imageBase64 (retryCount + 1) (tr' @ [Sleep 1000])
          else (Inl error, tr'))"
  by pat_completeness auto
termination
  by (relation "measure (\<lambda>(net, imageBase64, retryCount, tr). 2 - retryCount)") auto


text \<open>
  \<open>extractTextWithOCR\<close> of the utilities: pages \<open>1\<close> to \<open>min numPages 4\<close>, each rendered
  to an image and sent; an error of either step ends the whole extraction. \<open>pageMarker\<close>
  is the separator line with the page number in decimal (code unit 225 is the accented a).
\<close>

fun digitsOf :: "nat \<Rightarrow> jsstring" where
  "digitsOf n = (if n < 10 then [48 + n] else digitsOf (n div 10) @ [48 + n mod 10])"

definition pageMarker :: "nat \<Rightarrow> jsstring" where
  "pageMarker i = [10] @ js ''--- P'' @ [225] @ js ''gina '' @ digitsOf i @ js '' ---'' @ [10]"

fun ocrPages ::
  "(nat \<Rightarrow> ocrError + jsstring) \<Rightarrow> (nat \<Rightarrow> ocrError + response) \<Rightarrow> nat list \<Rightarrow> jsstring
     \<Rightarrow> jsstring event list \<Rightarrow> (ocrError + jsstring) \<times> jsstring event list" where
  "ocrPages pdfPageToImage net [] completeText tr = (Inr completeText, tr)"
| "ocrPages pdfPageToImage net (i # rest) completeText tr =
     (case pdfPageToImage i of
        Inl e \<Rightarrow> (Inl e, tr @ [Render i])
      | Inr imageBase64 \<Rightarrow>
          (case extractTextFromImage net imageBase64 0 (tr @ [Render i]) of
             (Inl e, tr') \<Rightarrow> (Inl e, tr')
           | (Inr extractedText, tr') \<Rightarrow>
               ocrPages pdfPageToImage net rest
                 (completeText @ (if 1 < i then pageMarker i else []) @ extractedText @ [10]) tr'))"

definition extractTextWithOCR ::
  "nat \<Rightarrow> (nat \<Rightarrow> ocrError + jsstring) \<Rightarrow> (nat \<Rightarrow> ocrError + response)
     \<Rightarrow> (ocrError + jsstring) \<times> jsstring event list" where
  "extractTextWithOCR numPages pdfPageToImage net =
     (let pagesToProcess = min numPages 4
      in ocrPages pdfPageToImage net [1..<Suc pagesToProcess] [] [])"


section \<open>The OCR service: payload sizes and page loops\<close>

text \<open>
  A \<open>File\<close> as far as the size checks read it, the two limits of the service, and the
  options of a compression. \<open>toBlob\<close> is the encoder of the canvas: for a file and the
  quality (in percent), maximal width and maximal height it answers the size of the
  encoded image, or fails. \<open>renderPage\<close> and \<open>compressImage\<close> are the rendering of a page
  to a JPEG file and the service's own compression, both done by the canvas as well.
\<close>

record fileRec =
  fileSize :: nat
  fileType :: jsstring

definition MAX_FILE_SIZE :: nat where "MAX_FILE_SIZE = 1024 * 1024"
definition MAX_PREMIUM_FILE_SIZE :: nat where "MAX_PREMIUM_FILE_SIZE = 5 * 1024 * 1024"

record compressOptions =
  quality :: "nat option"
  maxWidth :: "nat option"
  maxHeight :: "nat option"

record ocrEnv =
  toBlob :: "fileRec \<Rightarrow> nat \<times> nat \<times> nat \<Rightarrow> ocrError + nat"
  api :: "nat \<Rightarrow> ocrError + response"
  caseTable :: "nat \<Rightarrow> jsstring"
  renderPage :: "nat \<Rightarrow> ocrError + fileRec"
  compressImage :: "fileRec \<Rightarrow> ocrError + fileRec"

text \<open>\<open>compressImageInBrowser\<close>: the defaults are 0.7, 1200 and 1800; the result is a JPEG.\<close>

definition compressImageInBrowser :: "ocrEnv \<Rightarrow> fileRec \<Rightarrow> compressOptions \<Rightarrow> ocrError + fileRec" where
  "compressImageInBrowser env imageFile options =
     (let q = (case quality options of Some v \<Rightarrow> v | None \<Rightarrow> 70);
          w = (case maxWidth options of Some v \<Rightarrow> v | None \<Rightarrow> 1200);
          h = (case maxHeight options of Some v \<Rightarrow> v | None \<Rightarrow> 1800)
      in case toBlob env imageFile (q, w, h) of
           Inl e \<Rightarrow> Inl e
         | Inr n \<Rightarrow> Inr \<lparr>fileSize = n, fileType = js ''image/jpeg''\<rparr>)"

record ocrResult =
  raw :: jsstring
  bankType :: jsstring

text \<open>
  The second half of \<open>processIndividualFile\<close>: the file is posted and the answer read
  (the form fields other than the file do not depend on its size and are left out).
\<close>

definition postFile :: "ocrEnv \<Rightarrow> fileRec \<Rightarrow> fileRec event list \<Rightarrow> (ocrError + ocrResult) \<times> fileRec event list" where
  "postFile env file tr =
     (case api env (requests tr) of
        Inl e \<Rightarrow> (Inl e, tr @ [Send file])
      | Inr data \<Rightarrow>
          if \<not> ok data then (Inl ApiStatusError, tr @ [Send file])
          else if isErroredOnProcessing data then (Inl OcrProcessingError, tr @ [Send file])
          else (let fullText = concat (map (\<lambda>pageText. pageText @ [10]) (parsedResults data))
                in (Inr \<lparr>raw = fullText, bankType = detectBankFromContent (caseTable env) fullText\<rparr>,
                    tr @ [Send file])))"

text \<open>
  \<open>processIndividualFile\<close>: a file above the premium limit is compressed if it is an
  image, and processed again if the result is within the free limit; every other file
  is posted as it is.
\<close>

function processIndividualFile ::
  "ocrEnv \<Rightarrow> fileRec \<Rightarrow> fileRec event list \<Rightarrow> (ocrError + ocrResult) \<times> fileRec event list" where
  "processIndividualFile env file tr =
     (if MAX_PREMIUM_FILE_SIZE < fileSize file then
        (if startsWith (fileType file) (js ''image/'') then
           (case compressImageInBrowser env file
                   \<lparr>quality = Some 60, maxWidth = Some 1000, maxHeight = Some 1400\<rparr> of
              Inl e \<Rightarrow> (Inl CompressFailed, tr @ [Compress file])
            | Inr compressedFile \<Rightarrow>
                if fileSize compressedFile \<le> MAX_FILE_SIZE
                then processIndividualFile env compressedFile (tr @ [Compress file])
                else (Inl TooLargeAfterCompress, tr @ [Compress file]))
         else (Inl TooLargeToProcess, tr))
      else postFile env file tr)"
  by pat_completeness auto
termination
  by (relation "measure (\<lambda>(env, file, tr). if MAX_PREMIUM_FILE_SIZE < fileSize file then 1 else 0)")
     (auto simp: MAX_FILE_SIZE_def MAX_PREMIUM_FILE_SIZE_def)

text \<open>
  \<open>processImagePages\<close>: an image above 0.95 MB is compressed first, and the original is
  used when the compression fails; an error on a page is caught and leaves an empty page.
  The comparison \<open>size / (1024 * 1024) > 0.95\<close> is written without the division.
\<close>

record pagesResult = ocrResult +
  pages :: "(nat \<times> jsstring) list"

definition isBlank :: "jsstring \<Rightarrow> bool" where
  "isBlank s = list_all isSpace s"

definition nearLimit :: "fileRec \<Rightarrow> bool" where
  "nearLimit f = (95 * (1024 * 1024) < fileSize f * 100)"

definition prepareImage :: "ocrEnv \<Rightarrow> fileRec \<Rightarrow> fileRec event list \<Rightarrow> fileRec \<times> fileRec event list" where
  "prepareImage env img tr =
     (if nearLimit img then
        (case compressImageInBrowser env img \<lparr>quality = Some 65, maxWidth = Some 1500, maxHeight = None\<rparr> of
           Inl e \<Rightarrow> (img, tr @ [Compress img])
         | Inr compressed \<Rightarrow> (compressed, tr @ [Compress img]))
      else (img, tr))"

fun imagePagesLoop ::
  "ocrEnv \<Rightarrow> fileRec list \<Rightarrow> nat \<Rightarrow> pagesResult \<Rightarrow> fileRec event list
     \<Rightarrow> pagesResult \<times> fileRec event list" where
  "imagePagesLoop env [] i acc tr = (acc, tr)"
| "imagePagesLoop env (img # rest) i acc tr =
     (let pageNumber = i + 1;
          (imageToProcess, tr1) = prepareImage env img tr
      in case processIndividualFile env imageToProcess tr1 of
           (Inl pageError, tr2) \<Rightarrow>
             imagePagesLoop env rest (i + 1) (acc\<lparr>pages := pages acc @ [(pageNumber, [])]\<rparr>) tr2
         | (Inr pageResult, tr2) \<Rightarrow>
             (let pageText = raw pageResult in
              if \<not> isBlank pageText then
                imagePagesLoop env rest (i + 1)
                  (acc\<lparr>raw := raw acc @ pageMarker pageNumber @ pageText,
                       pages := pages acc @ [(pageNumber, pageText)],
                       bankType := (if bankType acc = js ''Desconocido''
                                       \<and> bankType pageResult \<noteq> js ''Desconocido''
                                    then bankType pageResult else bankType acc)\<rparr>) tr2
              else
                imagePagesLoop env rest (i + 1) (acc\<lparr>pages := pages acc @ [(pageNumber, [])]\<rparr>) tr2))"

definition processImagePages :: "ocrEnv \<Rightarrow> fileRec list \<Rightarrow> pagesResult \<times> fileRec event list" where
  "processImagePages env imageFiles =
     imagePagesLoop env imageFiles 0 \<lparr>raw = [], bankType = js ''Desconocido'', pages = []\<rparr> []"

fun pdfPagesLoop ::
  "ocrEnv \<Rightarrow> nat list \<Rightarrow> pagesResult \<Rightarrow> fileRec event list \<Rightarrow> pagesResult \<times> fileRec event list" where
  "pdfPagesLoop env [] acc tr = (acc, tr)"
| "pdfPagesLoop env (i # rest) acc tr =
     (case renderPage env i of
        Inl pageError \<Rightarrow> pdfPagesLoop env rest acc (tr @ [Render i])
      | Inr imageFile \<Rightarrow>
          (case (if MAX_FILE_SIZE < fileSize imageFile
                 then (case compressImage env imageFile of
                         Inl e \<Rightarrow> Inl e
                       | Inr c \<Rightarrow> Inr (c, tr @ [Render i, Compress imageFile]))
                 else Inr (imageFile, tr @ [Render i])) of
             Inl pageError \<Rightarrow> pdfPagesLoop env rest acc (tr @ [Render i, Compress imageFile])
           | Inr (finalImageFile, tr1) \<Rightarrow>
               (case processIndividualFile env finalImageFile tr1 of
                  (Inl pageError, tr2) \<Rightarrow> pdfPagesLoop env rest acc tr2
                | (Inr pageResult, tr2) \<Rightarrow>
                    (let pageText = raw pageResult in
                     pdfPagesLoop env rest
                       (acc\<lparr>raw := raw acc @ pageMarker i @ pageText,
                            pages := pages acc @ [(i, pageText)],
                            bankType := (if bankType acc = js ''Desconocido''
                                            \<and> bankType pageResult \<noteq> js ''Desconocido''
                                         then bankType pageResult else bankType acc)\<rparr>) tr2))))"

definition processPdfByPages :: "ocrEnv \<Rightarrow> nat \<Rightarrow> pagesResult \<times> fileRec event list" where
  "processPdfByPages env numPages =
     pdfPagesLoop env [1..<Suc numPages] \<lparr>raw = [], bankType = js ''Desconocido'', pages = []\<rparr> []"

text \<open>The pages rendered, the compressions and the payload sizes of a trace.\<close>

fun renderedPages :: "'a event list \<Rightarrow> nat list" where
  "renderedPages [] = []"
| "renderedPages (Render i # es) = i # renderedPages es"
| "renderedPages (e # es) = renderedPages es"

definition requestEvent :: "jsstring \<Rightarrow> jsstring event \<Rightarrow> bool" where
  "requestEvent img e \<longleftrightarrow> (\<exists>d. e = Send d \<and> base64Data img = Some d) \<or> e = Sleep 1000"

fun isCompress :: "'a event \<Rightarrow> bool" where
  "isCompress (Compress x) = True"
| "isCompress e = False"

definition payloadsWithin :: "nat \<Rightarrow> fileRec event list \<Rightarrow> bool" where
  "payloadsWithin limit ev = list_all (\<lambda>e. case e of Send f \<Rightarrow> fileSize f \<le> limit | _ \<Rightarrow> True) ev"

text \<open>
  The events of one page of \<open>processImagePages\<close>: those of preparing the image and
  of processing what the preparation hands over.
\<close>

definition pageTrace :: "ocrEnv \<Rightarrow> fileRec \<Rightarrow> fileRec event list" where
  "pageTrace env img =
     snd (processIndividualFile env (fst (prepareImage env img [])) (snd (prepareImage env img [])))"

text \<open>
  An environment and a network for the examples: the encoder answers 1.5 MiB whatever
  it is given, the service answers every request with one line of text; the network
  \<open>net0\<close> fails twice and answers from the third request on.
\<close>

definition env0 :: ocrEnv where
  "env0 = \<lparr>toBlob = (\<lambda>f p. Inr 1572864),
           api = (\<lambda>n. Inr \<lparr>ok = True, isErroredOnProcessing = False, parsedResults = [js ''HSBC 1'']\<rparr>),
           caseTable = (\<lambda>c. [c]),
           renderPage = (\<lambda>i. Inr \<lparr>fileSize = 1000 * i, fileType = js ''image/jpeg''\<rparr>),
           compressImage = (\<lambda>f. Inl CompressFailed)\<rparr>"

definition net0 :: "nat \<Rightarrow> ocrError + response" where
  "net0 n = (if n < 2 then Inl RequestFailed
             else Inr \<lparr>ok = True, isErroredOnProcessing = False, parsedResults = [js ''SALDO'']\<rparr>)"

text \<open>The same environment with an encoder that always fails.\<close>

definition env1 :: ocrEnv where
  "env1 = env0\<lparr>toBlob := (\<lambda>f p. Inl CompressFailed)\<rparr>"


section \<open>Text layout of a page\<close>

text \<open>
  A text item of a page as the extractors read it: its string, the horizontal and the
  vertical position (\<open>transform[4]\<close> and \<open>transform[5]\<close>, the latter growing upwards
  from the bottom of the page) and its width. Coordinates are whole numbers, on which the
  arithmetic of the code (differences, a division by four, comparisons) is exact.
\<close>

record textItem =
  str :: jsstring
  transform4 :: int
  transform5 :: int
  width :: int

text \<open>
  \<open>Array.prototype.sort\<close> with a comparator: a stable sort, an item going behind every
  item that the comparator does not put after it.
\<close>

fun insertBy :: "('a \<Rightarrow> 'a \<Rightarrow> int) \<Rightarrow> 'a \<Rightarrow> 'a list \<Rightarrow> 'a list" where
  "insertBy cmp x [] = [x]"
| "insertBy cmp x (y # ys) = (if cmp y x \<le> 0 then y # insertBy cmp x ys else x # y # ys)"

definition sortBy :: "('a \<Rightarrow> 'a \<Rightarrow> int) \<Rightarrow> 'a list \<Rightarrow> 'a list" where
  "sortBy cmp xs = foldl (\<lambda>sorted x. insertBy cmp x sorted) [] xs"

text \<open>
  \<open>organizeIntoRows\<close>: the items are sorted with the comparator of the source,
  \<open>(pageHeight - b.transform[5]) - (pageHeight - a.transform[5])\<close>, and each goes to the
  first row whose first item is within 3 units, or opens a new row at the end.
\<close>

fun placeInRows :: "int \<Rightarrow> textItem \<Rightarrow> textItem list list \<Rightarrow> textItem list list" where
  "placeInRows pageHeight item [] = [[item]]"
| "placeInRows pageHeight item (row # rows) =
     (case row of
        [] \<Rightarrow> row # placeInRows pageHeight item rows
      | first # others \<Rightarrow>
          (let y = pageHeight - transform5 item;
               rowY = pageHeight - transform5 first
           in if \<bar>rowY - y\<bar> \<le> 3 then (row @ [item]) # rows
              else row # placeInRows pageHeight item rows))"

definition organizeIntoRows :: "textItem list \<Rightarrow> int \<Rightarrow> textItem list list" where
  "organizeIntoRows textItems pageHeight =
     (let sortedItems = sortBy (\<lambda>a b. (pageHeight - transform5 b) - (pageHeight - transform5 a)) textItems
      in foldl (\<lambda>rows item. placeInRows pageHeight item rows) [] sortedItems)"

text \<open>
  \<open>processTextContent\<close>: each row is sorted by \<open>transform[4]\<close> and written from left to
  right. \<open>Math.round(g / 4)\<close> is \<open>(g + 2) div 4\<close> on whole numbers (halves go up); the
  spaces are written only when \<open>lastEndX\<close> is positive. The rows are joined with the
  string of the source, \<^verbatim>\<open>'\\n'\<close>: a backslash (92) and the letter n (110).
\<close>

definition rowStep :: "jsstring \<times> int \<Rightarrow> textItem \<Rightarrow> jsstring \<times> int" where
  "rowStep state item =
     (let rowText = fst state; lastEndX = snd state;
          itemStartX = transform4 item;
          spacesNeeded = (itemStartX - lastEndX + 2) div 4;
          rowText = (if 0 < lastEndX \<and> 0 < spacesNeeded
                     then rowText @ replicate (nat (min spacesNeeded 10)) 32 else rowText)
      in (rowText @ str item, itemStartX + width item))"

definition rowToText :: "textItem list \<Rightarrow> jsstring" where
  "rowToText row = fst (foldl rowStep ([], 0) (sortBy (\<lambda>a b. transform4 a - transform4 b) row))"

fun joinWith :: "jsstring \<Rightarrow> jsstring list \<Rightarrow> jsstring" where
  "joinWith sep [] = []"
| "joinWith sep [x] = x"
| "joinWith sep (x # y # rest) = x @ sep @ joinWith sep (y # rest)"

definition processTextContent :: "textItem list \<Rightarrow> int \<Rightarrow> jsstring" where
  "processTextContent items pageHeight =
     (if items = [] then []
      else joinWith [92, 110] (map rowToText (organizeIntoRows items pageHeight)))"

text \<open>
  The item loop of \<open>extractTextFromPDF\<close> in the normalisation library. The text of an item
  loses its control characters, has each run of white space replaced by one space and is
  trimmed; the loop keeps the text so far, the current line and the last vertical position.
\<close>

definition isControl :: "nat \<Rightarrow> bool" where
  "isControl c = (c \<le> 31 \<or> (127 \<le> c \<and> c \<le> 159))"

definition trimJs :: "jsstring \<Rightarrow> jsstring" where
  "trimJs s = rev (dropWhile isSpace (rev (dropWhile isSpace s)))"

definition cleanItemText :: "jsstring \<Rightarrow> jsstring" where
  "cleanItemText s = trimJs (replaceAll (plusCls isSpace) [32] (replaceAll (cls isControl) [] s))"

record lineState =
  fullText :: jsstring
  lineText :: jsstring
  lastY :: "int option"

definition lineStep :: "lineState \<Rightarrow> textItem \<Rightarrow> lineState" where
  "lineStep st item =
     (let normalizedText = cleanItemText (str item) in
      if length normalizedText = 0 then st
      else let st = (case lastY st of
                       None \<Rightarrow> st
                     | Some y \<Rightarrow>
                         if 5 < \<bar>transform5 item - y\<bar>
                         then st\<lparr>fullText := fullText st @ trimJs (lineText st) @ [10], lineText := []\<rparr>
                         else st);
               st = (if 0 < length (lineText st) then st\<lparr>lineText := lineText st @ [32]\<rparr> else st)
           in st\<lparr>lineText := lineText st @ normalizedText, lastY := Some (transform5 item)\<rparr>)"

definition pageLines :: "textItem list \<Rightarrow> jsstring \<Rightarrow> jsstring" where
  "pageLines sortedItems text =
     (let st = foldl lineStep \<lparr>fullText = text, lineText = [], lastY = None\<rparr> sortedItems
      in if trimJs (lineText st) \<noteq> [] then fullText st @ trimJs (lineText st) @ [10]
         else fullText st)"

text \<open>A text item of the examples.\<close>

definition glyph :: "string \<Rightarrow> int \<Rightarrow> int \<Rightarrow> int \<Rightarrow> textItem" where
  "glyph s x y w = \<lparr>str = js s, transform4 = x, transform5 = y, width = w\<rparr>"


section \<open>Normalisation of bank text\<close>

text \<open>
  An object literal with character keys: a later entry for a key replaces an earlier one.
\<close>

definition objectLiteral :: "(nat \<times> jsstring) list \<Rightarrow> nat \<Rightarrow> jsstring option" where
  "objectLiteral entries = map_of (rev entries)"

text \<open>
  The sixty entries of \<open>bankCharMap\<close>, in the order of the source, each a character and
  the string that replaces it; three keys (249, 248 and 247) occur twice. The copy of the
  normalisation library adds entries that map 28 punctuation characters to themselves.
\<close>

definition bankCharEntries :: "(nat \<times> jsstring) list" where
  "bankCharEntries =
    [
     (240, [48]), (241, [49]), (242, [50]), (243, [51]), (244, [52]),
     (245, [53]), (246, [54]), (247, [55]), (248, [56]), (249, [57]),
     (213, [78]), (214, [79]), (199, [67]), (201, [69]), (193, [65]),
     (197, [69]), (194, [66]), (195, [67]), (196, [68]), (198, [70]),
     (200, [72]), (217, [82]), (218, [83]), (219, [84]), (220, [85]),
     (221, [86]), (222, [88]), (223, [89]), (224, [90]), (209, [209]),
     (228, [100]), (227, [99]), (226, [98]), (225, [97]), (229, [101]),
     (233, [105]), (232, [104]), (231, [103]), (230, [102]), (237, [109]),
     (236, [108]), (235, [107]), (234, [106]), (239, [111]), (238, [110]),
     (250, [115]), (249, [114]), (248, [112]), (247, [113]), (253, [119]),
     (252, [117]), (251, [116]), (163, [76]), (162, [111]), (215, [120]),
     (212, [77]), (210, [75]), (207, [73]), (208, [74]), (204, [71])]"

definition punctuationEntries :: "(nat \<times> jsstring) list" where
  "punctuationEntries = map (\<lambda>c. (c, [c]))
     [64, 35, 36, 37, 94, 38, 42, 40, 41, 45, 43, 61, 123, 125, 91, 93, 124, 92, 58, 59,
      34, 39, 60, 62, 44, 46, 63, 47]"

text \<open>
  The loop over the characters of the text: a character with a non-empty entry is
  replaced by its entry, every other character is kept.
\<close>

primrec substituteChars :: "(nat \<Rightarrow> jsstring option) \<Rightarrow> jsstring \<Rightarrow> jsstring" where
  "substituteChars bankCharMap [] = []"
| "substituteChars bankCharMap (char # rest) =
     (case bankCharMap char of
        Some v \<Rightarrow> if v \<noteq> [] then v else [char]
      | None \<Rightarrow> [char]) @ substituteChars bankCharMap rest"

text \<open>
  The replacements with capture groups, each written as the matcher of its expression
  with the replacement it builds: \<^verbatim>\<open>/([0-9]) ([0-9])/g\<close> and
  \<^verbatim>\<open>/([0-9]),([0-9]{3})/g\<close> with \<open>$1$2\<close>, and \<^verbatim>\<open>/\[(.*?)\]/g\<close> with \<open>$1\<close>, whose
  lazy \<open>.*?\<close> stops at the first closing bracket and crosses no line terminator.
\<close>

definition spacedDigitsRule :: matcher where
  "spacedDigitsRule p s =
     (case s of
        a # b # c # rest \<Rightarrow> if isDigit a \<and> b = 32 \<and> isDigit c then Some (3, [a, c]) else None
      | _ \<Rightarrow> None)"

definition thousandsRule :: matcher where
  "thousandsRule p s =
     (case s of
        a # b # c # d # e # rest \<Rightarrow>
          if isDigit a \<and> b = 44 \<and> isDigit c \<and> isDigit d \<and> isDigit e
          then Some (5, [a, c, d, e]) else None
      | _ \<Rightarrow> None)"

definition isLineTerminator :: "nat \<Rightarrow> bool" where
  "isLineTerminator c = (c = 10 \<or> c = 13 \<or> c = 8232 \<or> c = 8233)"

definition bracketRule :: matcher where
  "bracketRule p s =
     (case s of
        [] \<Rightarrow> None
      | c # rest \<Rightarrow>
          if c = 91 then
            (let inner = takeWhile (\<lambda>x. x \<noteq> 93 \<and> \<not> isLineTerminator x) rest
             in case drop (length inner) rest of
                  [] \<Rightarrow> None
                | x # after \<Rightarrow> if x = 93 then Some (length inner + 2, inner) else None)
          else None)"

text \<open>
  \<^verbatim>\<open>/No\./gi\<close>, \<^verbatim>\<open>/Num\./gi\<close> and \<^verbatim>\<open>/Ref\./gi\<close>; the word that replaces the first two
  has the accented u (code unit 250) as its second letter.
\<close>

definition noRegex :: rx where
  "noRegex = sq (clsI 78) (sq (clsI 111) (cls (\<lambda>c. c = 46)))"

definition numRegex :: rx where
  "numRegex = sq (clsI 78) (sq (clsI 117) (sq (clsI 109) (cls (\<lambda>c. c = 46))))"

definition refRegex :: rx where
  "refRegex = sq (clsI 82) (sq (clsI 101) (sq (clsI 102) (cls (\<lambda>c. c = 46))))"

definition numeroWord :: jsstring where
  "numeroWord = js ''N'' @ [250] @ js ''mero''"

text \<open>
  The chain of the six replacements, and \<open>normalizeBankText\<close> in its two copies, which
  differ in the table only.
\<close>

definition repairNumbersAndWords :: "jsstring \<Rightarrow> jsstring" where
  "repairNumbersAndWords normalized =
     (let normalized = scan spacedDigitsRule None 0 normalized;
          normalized = scan thousandsRule None 0 normalized;
          normalized = scan bracketRule None 0 normalized;
          normalized = replaceAll noRegex numeroWord normalized;
          normalized = replaceAll numRegex numeroWord normalized;
          normalized = replaceAll refRegex (js ''Referencia'') normalized
      in normalized)"

definition normalizeBankText :: "jsstring \<Rightarrow> jsstring" where
  "normalizeBankText text =
     (if text = [] then []
      else repairNumbersAndWords
             (substituteChars (objectLiteral (bankCharEntries @ punctuationEntries)) text))"

definition normalizeBankText_simple :: "jsstring \<Rightarrow> jsstring" where
  "normalizeBankText_simple text =
     (if text = [] then []
      else repairNumbersAndWords (substituteChars (objectLiteral bankCharEntries) text))"

text \<open>
  Two properties of a matcher, for a character \<open>x\<close>: a replacement holds \<open>x\<close> at least
  as often as the text it replaces, and a replacement holds \<open>x\<close> only if the text does.
  \<open>charOf\<close> is the character that a table of one-character entries gives for a character.
\<close>

definition keepsChar :: "matcher \<Rightarrow> nat \<Rightarrow> bool" where
  "keepsChar m x \<longleftrightarrow> (\<forall>p s n r. m p s = Some (n, r) \<longrightarrow> count_list (take n s) x \<le> count_list r x)"

definition addsNo :: "matcher \<Rightarrow> nat \<Rightarrow> bool" where
  "addsNo m x \<longleftrightarrow> (\<forall>p s n r. m p s = Some (n, r) \<longrightarrow> x \<in> set r \<longrightarrow> x \<in> set s)"

definition charOf :: "(nat \<Rightarrow> jsstring option) \<Rightarrow> nat \<Rightarrow> nat" where
  "charOf m c = (case m c of Some v \<Rightarrow> hd v | None \<Rightarrow> c)"


section \<open>Matches of the redaction expressions\<close>

text \<open>
  What a match of an expression looks like. \<open>sound a Q\<close> says that whenever the
  matcher \<open>a\<close> succeeds, it has consumed a piece \<open>w\<close> of the input with \<open>Q w\<close> and has
  handed the rest to its continuation; \<open>lastOr p w\<close> is the character before the
  position behind \<open>w\<close>. \<open>pieces Q lo hi w\<close> cuts \<open>w\<close> into between \<open>lo\<close> and \<open>hi\<close>
  pieces that satisfy \<open>Q\<close>, and \<open>over P w\<close> says that every character of \<open>w\<close> is in
  the class \<open>P\<close>.
\<close>

definition lastOr :: "nat option \<Rightarrow> jsstring \<Rightarrow> nat option" where
  "lastOr p w = (if w = [] then p else Some (last w))"

definition sound :: "rx \<Rightarrow> (jsstring \<Rightarrow> bool) \<Rightarrow> bool" where
  "sound a Q \<longleftrightarrow>
     (\<forall>p s k r. a (p, s) k = Some r \<longrightarrow> (\<exists>w s'. s = w @ s' \<and> Q w \<and> k (lastOr p w, s') = Some r))"

definition pieces :: "(jsstring \<Rightarrow> bool) \<Rightarrow> nat \<Rightarrow> nat \<Rightarrow> jsstring \<Rightarrow> bool" where
  "pieces Q lo hi w \<longleftrightarrow>
     (\<exists>ws. w = concat ws \<and> lo \<le> length ws \<and> length ws \<le> hi \<and> (\<forall>u \<in> set ws. Q u))"

definition over :: "(nat \<Rightarrow> bool) \<Rightarrow> jsstring \<Rightarrow> bool" where
  "over P w \<longleftrightarrow> (\<forall>c \<in> set w. P c)"

text \<open>
  One iteration of the card expression is a digit followed by separators; one of the
  account and CLABE expressions is a digit.
\<close>

definition cardPiece :: "jsstring \<Rightarrow> bool" where
  "cardPiece u \<longleftrightarrow> (\<exists>d seps. u = d # seps \<and> isDigit d \<and> (\<forall>c \<in> set seps. isSep c))"

definition digitPiece :: "jsstring \<Rightarrow> bool" where
  "digitPiece u \<longleftrightarrow> (\<exists>d. u = [d] \<and> isDigit d)"

text \<open>
  Properties of a replacement rule. A rule of \<open>digitRule hi\<close> matches only between word
  boundaries, from a digit on, digits and separators with at most \<open>hi\<close> digits among
  them. A rule of \<open>needsChar\<close> matches only in a text that contains the character, and
  one of \<open>noDigitRule\<close> matches no digit and never the empty string. \<open>skips m run\<close>:
  no match of \<open>m\<close> overlaps the piece \<open>run\<close> of a text, whatever is around it.
\<close>

definition digitRule :: "nat \<Rightarrow> matcher \<Rightarrow> bool" where
  "digitRule hi m \<longleftrightarrow>
     (\<forall>p s n r. m p s = Some (n, r) \<longrightarrow>
        (\<exists>w s'. s = w @ s' \<and> n = length w \<and> w \<noteq> [] \<and> isDigit (hd w)
           \<and> (\<forall>c \<in> set w. isDigit c \<or> isSep c) \<and> length (filter isDigit w) \<le> hi
           \<and> \<not> wordBefore p \<and> isWordChar (last w) \<noteq> wordAfter s'))"

definition needsChar :: "matcher \<Rightarrow> nat \<Rightarrow> bool" where
  "needsChar m x \<longleftrightarrow> (\<forall>p s n r. m p s = Some (n, r) \<longrightarrow> x \<in> set s)"

definition noDigitRule :: "matcher \<Rightarrow> bool" where
  "noDigitRule m \<longleftrightarrow>
     (\<forall>p s n r. m p s = Some (n, r) \<longrightarrow> 0 < n \<and> n \<le> length s \<and> over (\<lambda>c. \<not> isDigit c) (take n s))"

definition skips :: "matcher \<Rightarrow> jsstring \<Rightarrow> bool" where
  "skips m run \<longleftrightarrow>
     (\<forall>p a post n r. m p (a @ run @ post) = Some (n, r) \<longrightarrow> 0 < n \<and> n \<le> length a)
   \<and> (\<forall>u v post. run = u @ v \<longrightarrow> u \<noteq> [] \<longrightarrow> v \<noteq> [] \<longrightarrow> m (Some (last u)) (v @ post) = None)"


section \<open>Facts about strings\<close>

lemma startsWith_iff: "startsWith s n \<longleftrightarrow> (\<exists>b. s = n @ b)"
  by (induction s n rule: startsWith.induct) auto

lemma includesJs_iff: "includesJs s n \<longleftrightarrow> (\<exists>a b. s = a @ n @ b)"
proof (induction s)
  case Nil
  then show ?case by auto
next
  case (Cons c cs)
  show ?case
  proof
    assume "includesJs (c # cs) n"
    then consider "startsWith (c # cs) n" | "includesJs cs n" by auto
    then show "\<exists>a b. c # cs = a @ n @ b"
    proof cases
      case 1
      then obtain b where "c # cs = n @ b" by (auto simp: startsWith_iff)
      then have "c # cs = [] @ n @ b" by simp
      then show ?thesis by blast
    next
      case 2
      then obtain a b where "cs = a @ n @ b" using Cons.IH by auto
      then have "c # cs = (c # a) @ n @ b" by simp
      then show ?thesis by blast
    qed
  next
    assume "\<exists>a b. c # cs = a @ n @ b"
    then obtain a b where ab: "c # cs = a @ n @ b" by auto
    show "includesJs (c # cs) n"
    proof (cases a)
      case Nil
      with ab have "startsWith (c # cs) n" by (simp add: startsWith_iff)
      then show ?thesis by simp
    next
      case (Cons x a')
      with ab have "cs = a' @ n @ b" by simp
      then show ?thesis using Cons.IH by auto
    qed
  qed
qed

lemma toUpperCase_append:
  "toUpperCase up (a @ b) = toUpperCase up a @ toUpperCase up b"
  by (simp add: toUpperCase_def)

lemma toUpperCase_fixed:
  "\<forall>c \<in> set n. c < 97 \<Longrightarrow> toUpperCase up n = n"
  by (induction n) (auto simp: toUpperCase_def upperAscii_def)

lemma includesJs_toUpperCase:
  assumes "includesJs text n" and "\<forall>c \<in> set n. c < 97"
  shows "includesJs (toUpperCase up text) n"
proof -
  from assms(1) obtain a b where "text = a @ n @ b"
    by (auto simp: includesJs_iff)
  then have "toUpperCase up text = toUpperCase up a @ n @ toUpperCase up b"
    using assms(2) by (simp add: toUpperCase_append toUpperCase_fixed)
  then show ?thesis
    unfolding includesJs_iff by blast
qed


section \<open>Bank detection: priority order\<close>

text \<open>
  C5. Bank detection is a first-match containment check over the upper-cased text, in
  the order HSBC/2NOW, BBVA/BANCOMER, SANTANDER, BANORTE, BANAMEX/CITIBANAMEX, and
  answers \<open>Desconocido\<close> when no keyword occurs; both copies of the function agree.
  In particular a text that contains both \<open>BBVA\<close> and \<open>HSBC\<close> is detected as HSBC,
  whatever the engine's case tables do beyond ASCII.
\<close>

theorem detectBank_priority:
  "detectBankFromContent up text = detectBankType up text
   \<and> (let u = toUpperCase up text;
          hsbc = includesJs u (js ''HSBC'') \<or> includesJs u (js ''2NOW'');
          bbva = includesJs u (js ''BBVA'') \<or> includesJs u (js ''BANCOMER'');
          santander = includesJs u (js ''SANTANDER'');
          banorte = includesJs u (js ''BANORTE'');
          banamex = includesJs u (js ''BANAMEX'') \<or> includesJs u (js ''CITIBANAMEX'')
      in (hsbc \<longrightarrow> detectBankType up text = js ''HSBC'')
       \<and> (\<not> hsbc \<and> bbva \<longrightarrow> detectBankType up text = js ''BBVA'')
       \<and> (\<not> hsbc \<and> \<not> bbva \<and> santander \<longrightarrow> detectBankType up text = js ''SANTANDER'')
       \<and> (\<not> hsbc \<and> \<not> bbva \<and> \<not> santander \<and> banorte
            \<longrightarrow> detectBankType up text = js ''BANORTE'')
       \<and> (\<not> hsbc \<and> \<not> bbva \<and> \<not> santander \<and> \<not> banorte \<and> banamex
            \<longrightarrow> detectBankType up text = js ''CITIBANAMEX'')
       \<and> (\<not> hsbc \<and> \<not> bbva \<and> \<not> santander \<and> \<not> banorte \<and> \<not> banamex
            \<longrightarrow> detectBankType up text = js ''Desconocido''))
   \<and> (includesJs text (js ''BBVA'') \<and> includesJs text (js ''HSBC'')
        \<longrightarrow> detectBankType up text = js ''HSBC'')"
proof (intro conjI)
  show "detectBankFromContent up text = detectBankType up text"
    by (simp add: detectBankFromContent_def detectBankType_def Let_def)
next
  show "includesJs text (js ''BBVA'') \<and> includesJs text (js ''HSBC'')
        \<longrightarrow> detectBankType up text = js ''HSBC''"
  proof
    assume h: "includesJs text (js ''BBVA'') \<and> includesJs text (js ''HSBC'')"
    have "\<forall>c \<in> set (js ''HSBC''). c < 97"
      by (simp add: js_def)
    with h have "includesJs (toUpperCase up text) (js ''HSBC'')"
      by (simp add: includesJs_toUpperCase)
    then show "detectBankType up text = js ''HSBC''"
      by (simp add: detectBankType_def Let_def)
  qed
qed (simp_all add: detectBankType_def Let_def)

theorem detectBank_priority_witness:
  "includesJs (js ''Cuenta bbva, BBVA y HSBC'') (js ''BBVA'')
   \<and> includesJs (js ''Cuenta bbva, BBVA y HSBC'') (js ''HSBC'')
   \<and> detectBankType (\<lambda>c. [c]) (js ''Cuenta bbva, BBVA y HSBC'') = js ''HSBC''
   \<and> detectBankFromContent (\<lambda>c. [c]) (js ''Cuenta bbva, BBVA y HSBC'') = js ''HSBC''"
  using detectBank_priority [of "\<lambda>c. [c]" "js ''Cuenta bbva, BBVA y HSBC''"]
  by (simp add: js_def)


section \<open>Redaction: the CLABE rule\<close>

text \<open>
  C1. An 18-digit run is meant to be labelled with the CLABE token. In the function the
  account rule runs before the CLABE rule and takes every 18-digit run first: a bare
  18-digit CLABE comes out under the account token, in both copies of the function.
\<close>

theorem clabe_run_gets_account_token:
  "sanitizePersonalData (js ''123456789012345678'') = accountToken
   \<and> sanitizePersonalData_simple (js ''123456789012345678'') = accountToken
   \<and> accountToken \<noteq> clabeToken"
  by code_simp


section \<open>Facts about the remote OCR code\<close>

lemma requests_simps [simp]:
  "requests [] = 0" "requests (tr @ [Send x]) = Suc (requests tr)" "requests (tr @ [Sleep n]) = requests tr"
  "requests (tr @ [Render i]) = requests tr" "requests (tr @ [Compress y]) = requests tr"
  by (simp_all add: requests_def)

declare extractTextFromImage.simps [simp del]
declare processIndividualFile.simps [simp del]

lemma renderedPages_append [simp]: "renderedPages (a @ b) = renderedPages a @ renderedPages b"
  by (induction a rule: renderedPages.induct) auto

lemma extractTextFromImage_trace:
  "\<exists>ev. snd (extractTextFromImage net img rc tr) = tr @ ev \<and> (\<forall>e \<in> set ev. requestEvent img e)"
proof (induction net img rc tr rule: extractTextFromImage.induct)
  case (1 net img rc tr)
  obtain r tr' where req: "requestOcr net img tr = (r, tr')" by (cases "requestOcr net img tr")
  have tr': "\<exists>ev. tr' = tr @ ev \<and> (\<forall>e \<in> set ev. requestEvent img e)"
    using req by (auto simp: requestOcr_def requestEvent_def split: option.splits if_splits)
  show ?case
  proof (cases r)
    case (Inr okText)
    then show ?thesis using req tr' by (subst extractTextFromImage.simps) simp
  next
    case (Inl err)
    show ?thesis
    proof (cases "rc < 2")
      case False
      then show ?thesis using req tr' Inl by (subst extractTextFromImage.simps) simp
    next
      case True
      from "1.IH"[OF req[symmetric] Inl True]
      obtain ev where ev: "snd (extractTextFromImage net img (rc + 1) (tr' @ [Sleep 1000])) = (tr' @ [Sleep 1000]) @ ev"
        "\<forall>e \<in> set ev. requestEvent img e" by blast
      from tr' obtain ev0 where ev0: "tr' = tr @ ev0" "\<forall>e \<in> set ev0. requestEvent img e" by blast
      have "snd (extractTextFromImage net img rc tr) = tr @ (ev0 @ [Sleep 1000] @ ev)"
        using req Inl True ev(1) ev0(1) by (subst extractTextFromImage.simps) simp
      moreover have "\<forall>e \<in> set (ev0 @ [Sleep 1000] @ ev). requestEvent img e"
        using ev(2) ev0(2) by (auto simp: requestEvent_def)
      ultimately show ?thesis by blast
    qed
  qed
qed

lemma renderedPages_requests:
  "\<forall>e \<in> set ev. requestEvent img e \<Longrightarrow> renderedPages ev = []"
  by (induction ev rule: renderedPages.induct) (auto simp: requestEvent_def)

lemma ocrPages_trace:
  "\<exists>ev rest. snd (ocrPages render net ps acc tr) = tr @ ev
     \<and> ps = renderedPages ev @ rest
     \<and> (\<not> isl (fst (ocrPages render net ps acc tr)) \<longrightarrow> rest = [])
     \<and> (\<forall>d. Send d \<in> set ev \<longrightarrow>
           (\<exists>i img. i \<in> set ps \<and> render i = Inr img \<and> base64Data img = Some d))"
proof (induction ps arbitrary: acc tr)
  case Nil
  then show ?case by simp
next
  case (Cons i ps)
  show ?case
  proof (cases "render i")
    case (Inl e)
    show ?thesis
      apply (rule exI[of _ "[Render i]"])
      apply (rule exI[of _ ps])
      using Inl by simp
  next
    case (Inr img)
    obtain r tr' where ex: "extractTextFromImage net img 0 (tr @ [Render i]) = (r, tr')"
      by (cases "extractTextFromImage net img 0 (tr @ [Render i])")
    from extractTextFromImage_trace[of net img 0 "tr @ [Render i]"] ex
    obtain ev1 where ev1: "tr' = (tr @ [Render i]) @ ev1" "\<forall>e \<in> set ev1. requestEvent img e"
      by auto
    have rp1: "renderedPages ev1 = []" using ev1(2) by (rule renderedPages_requests)
    have sends1: "\<forall>d. Send d \<in> set ev1 \<longrightarrow> base64Data img = Some d"
      using ev1(2) by (auto simp: requestEvent_def)
    show ?thesis
    proof (cases r)
      case (Inl e)
      have 1: "snd (ocrPages render net (i # ps) acc tr) = tr @ ([Render i] @ ev1)"
        and 2: "isl (fst (ocrPages render net (i # ps) acc tr))"
        using Inr ex Inl ev1(1) by simp_all
      have 3: "i # ps = renderedPages ([Render i] @ ev1) @ ps" using rp1 by simp
      have 4: "\<forall>d. Send d \<in> set ([Render i] @ ev1) \<longrightarrow>
           (\<exists>j img. j \<in> set (i # ps) \<and> render j = Inr img \<and> base64Data img = Some d)"
      proof (intro allI impI)
        fix d assume "Send d \<in> set ([Render i] @ ev1)"
        then have "Send d \<in> set ev1" by simp
        then have "base64Data img = Some d" using sends1 by blast
        then have "i \<in> set (i # ps) \<and> render i = Inr img \<and> base64Data img = Some d"
          using Inr by simp
        then show "\<exists>j img. j \<in> set (i # ps) \<and> render j = Inr img \<and> base64Data img = Some d"
          by blast
      qed
      show ?thesis
        apply (rule exI[of _ "[Render i] @ ev1"])
        apply (rule exI[of _ ps])
        using 1 2 3 4 by blast
    next
      case (Inr t)
      let ?text = "acc @ (if 1 < i then pageMarker i else []) @ t @ [10]"
      from Cons.IH[of ?text tr'] obtain ev2 rest where
        ev2: "snd (ocrPages render net ps ?text tr') = tr' @ ev2" "ps = renderedPages ev2 @ rest"
          "\<not> isl (fst (ocrPages render net ps ?text tr')) \<longrightarrow> rest = []"
          "\<forall>d. Send d \<in> set ev2 \<longrightarrow> (\<exists>i img. i \<in> set ps \<and> render i = Inr img \<and> base64Data img = Some d)"
        by blast
      have step: "ocrPages render net (i # ps) acc tr = ocrPages render net ps ?text tr'"
        using \<open>render i = Inr img\<close> ex Inr by simp
      have 1: "snd (ocrPages render net (i # ps) acc tr) = tr @ ([Render i] @ ev1 @ ev2)"
        using ev2(1) ev1(1) by (simp only: step) simp
      have 2: "i # ps = renderedPages ([Render i] @ ev1 @ ev2) @ rest"
        using rp1 ev2(2) by simp
      have 3: "\<not> isl (fst (ocrPages render net (i # ps) acc tr)) \<longrightarrow> rest = []"
        using ev2(3) by (simp only: step)
      have 4: "\<forall>d. Send d \<in> set ([Render i] @ ev1 @ ev2) \<longrightarrow>
           (\<exists>j img. j \<in> set (i # ps) \<and> render j = Inr img \<and> base64Data img = Some d)"
      proof (intro allI impI)
        fix d assume "Send d \<in> set ([Render i] @ ev1 @ ev2)"
        then consider "Send d \<in> set ev1" | "Send d \<in> set ev2" by auto
        then show "\<exists>j img. j \<in> set (i # ps) \<and> render j = Inr img \<and> base64Data img = Some d"
        proof cases
          case 1
          then have "base64Data img = Some d" using sends1 by blast
          then have "i \<in> set (i # ps) \<and> render i = Inr img \<and> base64Data img = Some d"
            using \<open>render i = Inr img\<close> by simp
          then show ?thesis by blast
        next
          case 2
          with ev2(4) obtain j im where "j \<in> set ps" "render j = Inr im" "base64Data im = Some d"
            by blast
          then have "j \<in> set (i # ps) \<and> render j = Inr im \<and> base64Data im = Some d" by simp
          then show ?thesis by blast
        qed
      qed
      show ?thesis
        apply (rule exI[of _ "[Render i] @ ev1 @ ev2"])
        apply (rule exI[of _ rest])
        using 1 2 3 4 by blast
    qed
  qed
qed

lemma Render_in_renderedPages: "Render i \<in> set ev \<longleftrightarrow> i \<in> set (renderedPages ev)"
  by (induction ev rule: renderedPages.induct) auto

lemma payloadsWithin_simps [simp]:
  "payloadsWithin l []"
  "payloadsWithin l (a @ b) \<longleftrightarrow> payloadsWithin l a \<and> payloadsWithin l b"
  "payloadsWithin l (Send f # b) \<longleftrightarrow> fileSize f \<le> l \<and> payloadsWithin l b"
  "payloadsWithin l (Compress f # b) \<longleftrightarrow> payloadsWithin l b"
  "payloadsWithin l (Render i # b) \<longleftrightarrow> payloadsWithin l b"
  "payloadsWithin l (Sleep n # b) \<longleftrightarrow> payloadsWithin l b"
  by (simp_all add: payloadsWithin_def)

lemma payloadsWithin_iff:
  "payloadsWithin l ev \<longleftrightarrow> (\<forall>f. Send f \<in> set ev \<longrightarrow> fileSize f \<le> l)"
  by (induction ev) (auto simp: payloadsWithin_def split: event.splits)

lemma postFile_trace: "snd (postFile env file tr) = tr @ [Send file]"
  by (simp add: postFile_def Let_def split: sum.splits)

lemma processIndividualFile_small:
  "fileSize file \<le> MAX_PREMIUM_FILE_SIZE \<Longrightarrow> processIndividualFile env file tr = postFile env file tr"
  by (subst processIndividualFile.simps) simp

lemma MAX_le: "MAX_FILE_SIZE \<le> MAX_PREMIUM_FILE_SIZE"
  by (simp add: MAX_FILE_SIZE_def MAX_PREMIUM_FILE_SIZE_def)

lemma processIndividualFile_large:
  assumes "MAX_PREMIUM_FILE_SIZE < fileSize file" and "startsWith (fileType file) (js ''image/'')"
  shows "processIndividualFile env file tr =
     (case compressImageInBrowser env file \<lparr>quality = Some 60, maxWidth = Some 1000, maxHeight = Some 1400\<rparr> of
        Inl e \<Rightarrow> (Inl CompressFailed, tr @ [Compress file])
      | Inr c \<Rightarrow> if fileSize c \<le> MAX_FILE_SIZE then postFile env c (tr @ [Compress file])
                 else (Inl TooLargeAfterCompress, tr @ [Compress file]))"
proof -
  have small: "fileSize c \<le> MAX_FILE_SIZE \<Longrightarrow>
      processIndividualFile env c tr' = postFile env c tr'" for c tr'
    using MAX_le by (intro processIndividualFile_small) simp
  show ?thesis
    using assms by (subst processIndividualFile.simps) (simp add: small split: sum.splits)
qed

lemma processIndividualFile_trace:
  "\<exists>ev. snd (processIndividualFile env file tr) = tr @ ev \<and> payloadsWithin MAX_PREMIUM_FILE_SIZE ev
        \<and> length (filter isCompress ev) \<le> 1"
proof (cases "MAX_PREMIUM_FILE_SIZE < fileSize file")
  case False
  then have "snd (processIndividualFile env file tr) = tr @ [Send file]"
    by (simp add: processIndividualFile_small postFile_trace)
  then show ?thesis using False by (intro exI[of _ "[Send file]"]) simp
next
  case True
  show ?thesis
  proof (cases "startsWith (fileType file) (js ''image/'')")
    case False
    have "snd (processIndividualFile env file tr) = tr @ []"
      using True False by (subst processIndividualFile.simps) simp
    then show ?thesis by (intro exI[of _ "[]"]) simp
  next
    case img: True
    let ?c = "compressImageInBrowser env file \<lparr>quality = Some 60, maxWidth = Some 1000, maxHeight = Some 1400\<rparr>"
    show ?thesis
    proof (cases ?c)
      case (Inl e)
      then have "snd (processIndividualFile env file tr) = tr @ [Compress file]"
        using True img by (simp add: processIndividualFile_large)
      then show ?thesis by (intro exI[of _ "[Compress file]"]) simp
    next
      case (Inr c)
      show ?thesis
      proof (cases "fileSize c \<le> MAX_FILE_SIZE")
        case False
        then have "snd (processIndividualFile env file tr) = tr @ [Compress file]"
          using True img Inr by (simp add: processIndividualFile_large)
        then show ?thesis by (intro exI[of _ "[Compress file]"]) simp
      next
        case small: True
        then have "snd (processIndividualFile env file tr) = tr @ [Compress file, Send c]"
          using True img Inr by (simp add: processIndividualFile_large postFile_trace)
        moreover have "fileSize c \<le> MAX_PREMIUM_FILE_SIZE" using small MAX_le by simp
        ultimately show ?thesis by (intro exI[of _ "[Compress file, Send c]"]) simp
      qed
    qed
  qed
qed

lemma prepareImage_trace:
  "\<exists>ev. snd (prepareImage env img tr) = tr @ ev \<and> payloadsWithin l ev"
  by (auto simp: prepareImage_def split: sum.splits)

lemma imagePagesLoop_trace:
  "\<exists>ev. snd (imagePagesLoop env imgs i acc tr) = tr @ ev \<and> payloadsWithin MAX_PREMIUM_FILE_SIZE ev"
proof (induction imgs arbitrary: i acc tr)
  case Nil
  then show ?case by simp
next
  case (Cons img imgs)
  obtain im tr1 where p: "prepareImage env img tr = (im, tr1)" by (cases "prepareImage env img tr")
  from prepareImage_trace[of env img tr MAX_PREMIUM_FILE_SIZE] p
  obtain ev1 where ev1: "tr1 = tr @ ev1" "payloadsWithin MAX_PREMIUM_FILE_SIZE ev1" by auto
  obtain r tr2 where q: "processIndividualFile env im tr1 = (r, tr2)"
    by (cases "processIndividualFile env im tr1")
  from processIndividualFile_trace[of env im tr1] q
  obtain ev2 where ev2: "tr2 = tr1 @ ev2" "payloadsWithin MAX_PREMIUM_FILE_SIZE ev2" by auto
  have "\<exists>acc'. imagePagesLoop env (img # imgs) i acc tr = imagePagesLoop env imgs (i + 1) acc' tr2"
    using p q by (cases r) (auto simp: Let_def)
  then obtain acc' where
    step: "imagePagesLoop env (img # imgs) i acc tr = imagePagesLoop env imgs (i + 1) acc' tr2" ..
  from Cons.IH[of "i + 1" acc' tr2] obtain ev3 where
    ev3: "snd (imagePagesLoop env imgs (i + 1) acc' tr2) = tr2 @ ev3"
      "payloadsWithin MAX_PREMIUM_FILE_SIZE ev3" by blast
  have "snd (imagePagesLoop env (img # imgs) i acc tr) = tr @ (ev1 @ ev2 @ ev3)"
    using ev1(1) ev2(1) ev3(1) by (simp only: step) simp
  moreover have "payloadsWithin MAX_PREMIUM_FILE_SIZE (ev1 @ ev2 @ ev3)"
    using ev1(2) ev2(2) ev3(2) by simp
  ultimately show ?case by blast
qed

lemma processIndividualFile_trace_indep:
  "snd (processIndividualFile env file tr) = tr @ snd (processIndividualFile env file [])"
proof (cases "MAX_PREMIUM_FILE_SIZE < fileSize file")
  case False
  then show ?thesis by (simp add: processIndividualFile_small postFile_trace)
next
  case True
  show ?thesis
  proof (cases "startsWith (fileType file) (js ''image/'')")
    case False
    have "processIndividualFile env file t = (Inl TooLargeToProcess, t)" for t
      using True False by (subst processIndividualFile.simps) simp
    then show ?thesis by simp
  next
    case img: True
    show ?thesis
      using True img
      by (simp add: processIndividualFile_large postFile_trace split: sum.splits)
  qed
qed

lemma prepareImage_indep:
  "fst (prepareImage env img tr) = fst (prepareImage env img [])"
  "snd (prepareImage env img tr) = tr @ snd (prepareImage env img [])"
  by (simp_all add: prepareImage_def split: sum.splits)

lemma imagePagesLoop_step:
  "\<exists>acc'. imagePagesLoop env (img # imgs) i acc tr
      = imagePagesLoop env imgs (i + 1) acc' (tr @ pageTrace env img)"
proof -
  obtain im tr1 where p: "prepareImage env img tr = (im, tr1)" by (cases "prepareImage env img tr")
  obtain r tr2 where q: "processIndividualFile env im tr1 = (r, tr2)"
    by (cases "processIndividualFile env im tr1")
  have im: "im = fst (prepareImage env img [])" and tr1: "tr1 = tr @ snd (prepareImage env img [])"
    using p prepareImage_indep[of env img tr] by simp_all
  have "tr2 = tr1 @ snd (processIndividualFile env im [])"
    using q processIndividualFile_trace_indep[of env im tr1] by simp
  also have "\<dots> = tr @ snd (processIndividualFile env im (snd (prepareImage env img [])))"
    using tr1 processIndividualFile_trace_indep[of env im "snd (prepareImage env img [])"] by simp
  finally have tr2: "tr2 = tr @ pageTrace env img" by (simp add: pageTrace_def im)
  have "\<exists>acc'. imagePagesLoop env (img # imgs) i acc tr = imagePagesLoop env imgs (i + 1) acc' tr2"
    using p q by (cases r) (auto simp: Let_def)
  then show ?thesis by (simp only: tr2)
qed

lemma imagePagesLoop_traces:
  "snd (imagePagesLoop env imgs i acc tr) = tr @ concat (map (pageTrace env) imgs)"
proof (induction imgs arbitrary: i acc tr)
  case Nil
  then show ?case by simp
next
  case (Cons img imgs)
  from imagePagesLoop_step[of env img imgs i acc tr] obtain acc' where
    step: "imagePagesLoop env (img # imgs) i acc tr
      = imagePagesLoop env imgs (i + 1) acc' (tr @ pageTrace env img)" ..
  show ?case by (simp only: step Cons.IH) simp
qed

lemma processImagePages_traces:
  "snd (processImagePages env imgs) = concat (map (pageTrace env) imgs)"
  by (simp add: processImagePages_def imagePagesLoop_traces)

lemma pageTrace_cases:
  "pageTrace env img =
     (if 95 * (1024 * 1024) < fileSize img * 100
      then (case compressImageInBrowser env img
                   \<lparr>quality = Some 65, maxWidth = Some 1500, maxHeight = None\<rparr> of
              Inl e \<Rightarrow> Compress img # snd (processIndividualFile env img [])
            | Inr c \<Rightarrow> Compress img # snd (processIndividualFile env c []))
      else snd (processIndividualFile env img []))"
  using processIndividualFile_trace_indep[of env _ "[Compress img]"]
  by (simp add: pageTrace_def prepareImage_def nearLimit_def split: sum.splits)

lemma pdfPagesLoop_step:
  "\<exists>acc' ev. pdfPagesLoop env (i # ps) acc tr = pdfPagesLoop env ps acc' (tr @ ev)
      \<and> payloadsWithin MAX_PREMIUM_FILE_SIZE ev"
proof (cases "renderPage env i")
  case (Inl e)
  then have "pdfPagesLoop env (i # ps) acc tr = pdfPagesLoop env ps acc (tr @ [Render i])
      \<and> payloadsWithin MAX_PREMIUM_FILE_SIZE [Render i]" by simp
  then show ?thesis by blast
next
  case (Inr imageFile)
  have sent: "\<exists>acc'. (case processIndividualFile env f tr1 of
                 (Inl pageError, tr2) \<Rightarrow> pdfPagesLoop env ps acc tr2
               | (Inr pageResult, tr2) \<Rightarrow>
                   (let pageText = raw pageResult in
                    pdfPagesLoop env ps
                      (acc\<lparr>raw := raw acc @ pageMarker i @ pageText,
                           pages := pages acc @ [(i, pageText)],
                           bankType := (if bankType acc = js ''Desconocido''
                                           \<and> bankType pageResult \<noteq> js ''Desconocido''
                                        then bankType pageResult else bankType acc)\<rparr>) tr2))
            = pdfPagesLoop env ps acc' (tr1 @ snd (processIndividualFile env f []))" for f tr1
  proof -
    obtain r tr2 where q: "processIndividualFile env f tr1 = (r, tr2)"
      by (cases "processIndividualFile env f tr1")
    then have "tr2 = tr1 @ snd (processIndividualFile env f [])"
      using processIndividualFile_trace_indep[of env f tr1] by simp
    then show ?thesis using q by (cases r) (auto simp: Let_def)
  qed
  have within: "payloadsWithin MAX_PREMIUM_FILE_SIZE (snd (processIndividualFile env f []))" for f
    using processIndividualFile_trace[of env f "[]"] by auto
  show ?thesis
  proof (cases "MAX_FILE_SIZE < fileSize imageFile")
    case False
    from sent[of imageFile "tr @ [Render i]"] obtain acc' where
      "pdfPagesLoop env (i # ps) acc tr
         = pdfPagesLoop env ps acc' (tr @ ([Render i] @ snd (processIndividualFile env imageFile [])))"
      using Inr False by auto
    moreover have "payloadsWithin MAX_PREMIUM_FILE_SIZE ([Render i] @ snd (processIndividualFile env imageFile []))"
      using within by simp
    ultimately show ?thesis by blast
  next
    case True
    show ?thesis
    proof (cases "compressImage env imageFile")
      case (Inl e)
      then have "pdfPagesLoop env (i # ps) acc tr
          = pdfPagesLoop env ps acc (tr @ [Render i, Compress imageFile])
        \<and> payloadsWithin MAX_PREMIUM_FILE_SIZE [Render i, Compress imageFile]"
        using \<open>renderPage env i = Inr imageFile\<close> True by simp
      then show ?thesis by blast
    next
      case (Inr c)
      from sent[of c "tr @ [Render i, Compress imageFile]"] obtain acc' where
        "pdfPagesLoop env (i # ps) acc tr
           = pdfPagesLoop env ps acc'
               (tr @ ([Render i, Compress imageFile] @ snd (processIndividualFile env c [])))"
        using \<open>renderPage env i = Inr imageFile\<close> True Inr by auto
      moreover have "payloadsWithin MAX_PREMIUM_FILE_SIZE
           ([Render i, Compress imageFile] @ snd (processIndividualFile env c []))"
        using within by simp
      ultimately show ?thesis by blast
    qed
  qed
qed

lemma pdfPagesLoop_trace:
  "\<exists>ev. snd (pdfPagesLoop env ps acc tr) = tr @ ev \<and> payloadsWithin MAX_PREMIUM_FILE_SIZE ev"
proof (induction ps arbitrary: acc tr)
  case Nil
  then show ?case by simp
next
  case (Cons i ps)
  from pdfPagesLoop_step[of env i ps acc tr] obtain acc' ev1 where
    step: "pdfPagesLoop env (i # ps) acc tr = pdfPagesLoop env ps acc' (tr @ ev1)"
    and ev1: "payloadsWithin MAX_PREMIUM_FILE_SIZE ev1" by blast
  from Cons.IH[of acc' "tr @ ev1"] obtain ev2 where
    ev2: "snd (pdfPagesLoop env ps acc' (tr @ ev1)) = (tr @ ev1) @ ev2"
      "payloadsWithin MAX_PREMIUM_FILE_SIZE ev2" by blast
  have "snd (pdfPagesLoop env (i # ps) acc tr) = tr @ (ev1 @ ev2)"
    using ev2(1) by (simp only: step) simp
  moreover have "payloadsWithin MAX_PREMIUM_FILE_SIZE (ev1 @ ev2)" using ev1 ev2(2) by simp
  ultimately show ?case by blast
qed

lemmas ev5 = env0_def processImagePages_def processPdfByPages_def prepareImage_def nearLimit_def
  compressImageInBrowser_def processIndividualFile_small postFile_def MAX_FILE_SIZE_def MAX_PREMIUM_FILE_SIZE_def
  Let_def isBlank_def isSpace_def js_def detectBankFromContent_def toUpperCase_def upperAscii_def


section \<open>Remote OCR: retries\<close>

text \<open>
  C6. A remote OCR request that fails is made again up to two more times, three
  attempts in all, with a wait of one second between two attempts, and the error reaches
  the caller only when the third attempt has failed too: for an image with data, the
  result and the trace of \<open>extractTextFromImage\<close> are those of the first attempt that
  succeeds among three, or the error of the third.
\<close>

theorem retry_three_attempts:
  assumes "base64Data imageBase64 = Some d" and "d \<noteq> []"
  shows "extractTextFromImage net imageBase64 0 [] =
     (if \<not> isl (readResponse (net 0)) then (readResponse (net 0), [Send d])
      else if \<not> isl (readResponse (net 1))
        then (readResponse (net 1), [Send d, Sleep 1000, Send d])
      else (readResponse (net 2), [Send d, Sleep 1000, Send d, Sleep 1000, Send d]))"
proof -
  have req: "requestOcr net imageBase64 tr = (readResponse (net (requests tr)), tr @ [Send d])" for tr
    using assms by (simp add: requestOcr_def)
  have r0: "requests ([] :: jsstring event list) = 0" by simp
  have r1: "requests [Send d, Sleep 1000] = 1" by (simp add: requests_def)
  have r2: "requests [Send d, Sleep 1000, Send d, Sleep 1000] = 2" by (simp add: requests_def)
  have third: "extractTextFromImage net imageBase64 (Suc (Suc 0)) [Send d, Sleep 1000, Send d, Sleep 1000]
      = (readResponse (net 2), [Send d, Sleep 1000, Send d, Sleep 1000, Send d])"
    by (subst extractTextFromImage.simps) (simp add: req r2 split: sum.splits)
  have second: "extractTextFromImage net imageBase64 (Suc 0) [Send d, Sleep 1000]
      = (if \<not> isl (readResponse (net 1)) then (readResponse (net 1), [Send d, Sleep 1000, Send d])
         else (readResponse (net 2), [Send d, Sleep 1000, Send d, Sleep 1000, Send d]))"
    by (subst extractTextFromImage.simps) (simp add: req r1 r2 third split: sum.splits)
  show ?thesis
    by (subst extractTextFromImage.simps) (simp add: req r1 r2 second split: sum.splits)
qed


theorem retry_three_attempts_witness:
  "base64Data (js ''data:image/png;base64,iVBOR'') = Some (js ''iVBOR'') \<and> js ''iVBOR'' \<noteq> []
   \<and> extractTextFromImage net0 (js ''data:image/png;base64,iVBOR'') 0 []
      = (Inr (js ''SALDO''),
         [Send (js ''iVBOR''), Sleep 1000, Send (js ''iVBOR''), Sleep 1000, Send (js ''iVBOR'')])
   \<and> extractTextFromImage (\<lambda>n. Inl RequestFailed) (js ''data:image/png;base64,iVBOR'') 0 []
      = (Inl RequestFailed,
         [Send (js ''iVBOR''), Sleep 1000, Send (js ''iVBOR''), Sleep 1000, Send (js ''iVBOR'')])"
proof -
  have b: "base64Data (js ''data:image/png;base64,iVBOR'') = Some (js ''iVBOR'')"
    by (simp add: base64Data_def js_def)
  have n: "js ''iVBOR'' \<noteq> []" by (simp add: js_def)
  show ?thesis
    using b n retry_three_attempts [OF b n, of net0] retry_three_attempts [OF b n, of "\<lambda>n. Inl RequestFailed"]
    by (simp add: net0_def readResponse_def)
qed


section \<open>Remote OCR: the page cap\<close>

text \<open>
  C9, as amended. \<open>extractTextWithOCR\<close> of the utilities processes pages \<open>1\<close> to
  \<open>min numPages 4\<close> in order, all of them when it succeeds; no page beyond the fourth
  is rendered, and every payload sent is the image of one of these pages.
\<close>

theorem remote_page_cap:
  "(\<exists>rest. [1..<Suc (min numPages 4)]
              = renderedPages (snd (extractTextWithOCR numPages pdfPageToImage net)) @ rest
        \<and> (\<not> isl (fst (extractTextWithOCR numPages pdfPageToImage net)) \<longrightarrow> rest = []))
   \<and> (\<forall>i. Render i \<in> set (snd (extractTextWithOCR numPages pdfPageToImage net))
          \<longrightarrow> 1 \<le> i \<and> i \<le> 4 \<and> i \<le> numPages)
   \<and> (\<forall>d. Send d \<in> set (snd (extractTextWithOCR numPages pdfPageToImage net))
          \<longrightarrow> (\<exists>i img. 1 \<le> i \<and> i \<le> 4 \<and> i \<le> numPages
                 \<and> pdfPageToImage i = Inr img \<and> base64Data img = Some d))"
proof -
  let ?ps = "[1..<Suc (min numPages 4)]"
  from ocrPages_trace[of pdfPageToImage net ?ps "[]" "[]"]
  obtain ev rest where
    ev0: "snd (ocrPages pdfPageToImage net ?ps [] []) = [] @ ev" and
    ev': "?ps = renderedPages ev @ rest"
      "\<not> isl (fst (ocrPages pdfPageToImage net ?ps [] [])) \<longrightarrow> rest = []"
      "\<forall>d. Send d \<in> set ev \<longrightarrow>
           (\<exists>i img. i \<in> set ?ps \<and> pdfPageToImage i = Inr img \<and> base64Data img = Some d)"
    by blast
  have ev: "snd (ocrPages pdfPageToImage net ?ps [] []) = ev" "?ps = renderedPages ev @ rest"
      "\<not> isl (fst (ocrPages pdfPageToImage net ?ps [] [])) \<longrightarrow> rest = []"
      "\<forall>d. Send d \<in> set ev \<longrightarrow>
           (\<exists>i img. i \<in> set ?ps \<and> pdfPageToImage i = Inr img \<and> base64Data img = Some d)"
    using ev0 ev' by simp_all
  have run: "extractTextWithOCR numPages pdfPageToImage net = ocrPages pdfPageToImage net ?ps [] []"
    by (simp add: extractTextWithOCR_def Let_def)
  have mem: "i \<in> set ?ps \<Longrightarrow> 1 \<le> i \<and> i \<le> 4 \<and> i \<le> numPages" for i
    by auto
  have a: "\<exists>rest. ?ps = renderedPages (snd (extractTextWithOCR numPages pdfPageToImage net)) @ rest
        \<and> (\<not> isl (fst (extractTextWithOCR numPages pdfPageToImage net)) \<longrightarrow> rest = [])"
    apply (rule exI[of _ rest])
    using ev(1,2,3) by (simp only: run)
  have b: "\<forall>i. Render i \<in> set (snd (extractTextWithOCR numPages pdfPageToImage net))
          \<longrightarrow> 1 \<le> i \<and> i \<le> 4 \<and> i \<le> numPages"
  proof (intro allI impI)
    fix i assume "Render i \<in> set (snd (extractTextWithOCR numPages pdfPageToImage net))"
    then have "i \<in> set (renderedPages ev)" using run ev(1) by (simp add: Render_in_renderedPages)
    then have "i \<in> set (renderedPages ev @ rest)" by simp
    then have "i \<in> set ?ps" by (simp only: ev(2)[symmetric])
    then show "1 \<le> i \<and> i \<le> 4 \<and> i \<le> numPages" by (rule mem)
  qed
  have c: "\<forall>d. Send d \<in> set (snd (extractTextWithOCR numPages pdfPageToImage net))
          \<longrightarrow> (\<exists>i img. 1 \<le> i \<and> i \<le> 4 \<and> i \<le> numPages
                 \<and> pdfPageToImage i = Inr img \<and> base64Data img = Some d)"
  proof (intro allI impI)
    fix d assume "Send d \<in> set (snd (extractTextWithOCR numPages pdfPageToImage net))"
    then have "Send d \<in> set ev" by (simp only: run ev(1))
    with ev(4) obtain i img where i: "i \<in> set ?ps" "pdfPageToImage i = Inr img" "base64Data img = Some d"
      by blast
    from mem[OF i(1)] i(2,3)
    show "\<exists>i img. 1 \<le> i \<and> i \<le> 4 \<and> i \<le> numPages
                 \<and> pdfPageToImage i = Inr img \<and> base64Data img = Some d"
      by blast
  qed
  from a b c show ?thesis by blast
qed


theorem remote_page_cap_witness:
  "renderedPages (snd (extractTextWithOCR 7 (\<lambda>i. Inr (js ''data:image/png;base64,iVBOR'')) net0))
     = [1, 2, 3, 4]
   \<and> Render 4 \<in> set (snd (extractTextWithOCR 7 (\<lambda>i. Inr (js ''data:image/png;base64,iVBOR'')) net0))
   \<and> Render 5 \<notin> set (snd (extractTextWithOCR 7 (\<lambda>i. Inr (js ''data:image/png;base64,iVBOR'')) net0))"
proof -
  let ?r = "\<lambda>i::nat. (Inr (js ''data:image/png;base64,iVBOR'') :: ocrError + jsstring)"
  have ok: "\<not> isl (fst (extractTextWithOCR 7 ?r net0))"
    by (simp add: extractTextWithOCR_def upt_rec extractTextFromImage.simps requestOcr_def
        base64Data_def js_def net0_def readResponse_def requests_def)
  have four: "[1..<Suc (min 7 4)] = [1, 2, 3, 4::nat]" by (simp add: upt_rec)
  from remote_page_cap [of 7 ?r net0] ok four
  have "renderedPages (snd (extractTextWithOCR 7 ?r net0)) = [1, 2, 3, 4]" by auto
  moreover from remote_page_cap [of 7 ?r net0]
  have "Render 5 \<notin> set (snd (extractTextWithOCR 7 ?r net0))" by auto
  ultimately show ?thesis by (simp add: Render_in_renderedPages)
qed


text \<open>
  The page loop of the OCR service has no cap: on a document of five pages
  \<open>processPdfByPages\<close> renders and sends all five.
\<close>

theorem uncapped_page_loop:
  "renderedPages (snd (processPdfByPages env0 5)) = [1, 2, 3, 4, 5]
   \<and> length (filter isSend (snd (processPdfByPages env0 5))) = 5"
  by (simp add: ev5 upt_rec)


section \<open>Remote OCR: the size of a payload\<close>

text \<open>
  C4, as amended. The limit that stops a transmission is the premium limit of 5 MiB:
  no payload sent by \<open>processImagePages\<close> or by \<open>processPdfByPages\<close> is larger.
  \<open>processIndividualFile\<close> posts a file within that limit as it is, with no compression.
  An image above it is compressed once, posted if the result is within 1 MiB, and refused
  with an error and nothing sent otherwise; a file above it that is no image is refused
  at once. \<open>processImagePages\<close> handles the page images one after the other. An image
  of more than 0.95 MB, that is of at least 996148 bytes, is first compressed once
  (quality 0.65, width at most 1500), and the result, or the original image when the
  compression fails, is handed to \<open>processIndividualFile\<close>; a smaller image is handed
  over as it is.
\<close>

theorem remote_payload_ceiling:
  "(\<forall>f. Send f \<in> set (snd (processImagePages env imageFiles))
         \<longrightarrow> fileSize f \<le> MAX_PREMIUM_FILE_SIZE)
   \<and> (fileSize file \<le> MAX_PREMIUM_FILE_SIZE
         \<longrightarrow> snd (processIndividualFile env file []) = [Send file])
   \<and> (MAX_PREMIUM_FILE_SIZE < fileSize file \<and> startsWith (fileType file) (js ''image/'')
         \<longrightarrow> (case compressImageInBrowser env file
                      \<lparr>quality = Some 60, maxWidth = Some 1000, maxHeight = Some 1400\<rparr> of
                Inl e \<Rightarrow> processIndividualFile env file [] = (Inl CompressFailed, [Compress file])
              | Inr c \<Rightarrow>
                  if fileSize c \<le> MAX_FILE_SIZE
                  then snd (processIndividualFile env file []) = [Compress file, Send c]
                  else processIndividualFile env file []
                         = (Inl TooLargeAfterCompress, [Compress file])))
   \<and> (MAX_PREMIUM_FILE_SIZE < fileSize file \<and> \<not> startsWith (fileType file) (js ''image/'')
         \<longrightarrow> processIndividualFile env file [] = (Inl TooLargeToProcess, []))
   \<and> MAX_FILE_SIZE = 1048576 \<and> MAX_PREMIUM_FILE_SIZE = 5242880
   \<and> (\<forall>f. Send f \<in> set (snd (processPdfByPages env numPages))
         \<longrightarrow> fileSize f \<le> MAX_PREMIUM_FILE_SIZE)
   \<and> snd (processImagePages env (imageFiles @ moreFiles))
        = snd (processImagePages env imageFiles) @ snd (processImagePages env moreFiles)
   \<and> snd (processImagePages env [file])
        = (if 996147 < fileSize file
           then (case compressImageInBrowser env file
                        \<lparr>quality = Some 65, maxWidth = Some 1500, maxHeight = None\<rparr> of
                   Inl e \<Rightarrow> Compress file # snd (processIndividualFile env file [])
                 | Inr c \<Rightarrow> Compress file # snd (processIndividualFile env c []))
           else snd (processIndividualFile env file []))"
proof (intro conjI)
  from imagePagesLoop_trace[of env imageFiles 0 "\<lparr>raw = [], bankType = js ''Desconocido'', pages = []\<rparr>" "[]"]
  obtain ev where "snd (processImagePages env imageFiles) = ev" "payloadsWithin MAX_PREMIUM_FILE_SIZE ev"
    by (auto simp: processImagePages_def)
  then show "\<forall>f. Send f \<in> set (snd (processImagePages env imageFiles))
         \<longrightarrow> fileSize f \<le> MAX_PREMIUM_FILE_SIZE"
    by (simp add: payloadsWithin_iff)
next
  show "fileSize file \<le> MAX_PREMIUM_FILE_SIZE
         \<longrightarrow> snd (processIndividualFile env file []) = [Send file]"
    by (simp add: processIndividualFile_small postFile_trace)
next
  show "MAX_PREMIUM_FILE_SIZE < fileSize file \<and> startsWith (fileType file) (js ''image/'')
         \<longrightarrow> (case compressImageInBrowser env file
                      \<lparr>quality = Some 60, maxWidth = Some 1000, maxHeight = Some 1400\<rparr> of
                Inl e \<Rightarrow> processIndividualFile env file [] = (Inl CompressFailed, [Compress file])
              | Inr c \<Rightarrow>
                  if fileSize c \<le> MAX_FILE_SIZE
                  then snd (processIndividualFile env file []) = [Compress file, Send c]
                  else processIndividualFile env file []
                         = (Inl TooLargeAfterCompress, [Compress file]))"
    by (simp add: processIndividualFile_large postFile_trace split: sum.splits)
next
  show "MAX_PREMIUM_FILE_SIZE < fileSize file \<and> \<not> startsWith (fileType file) (js ''image/'')
         \<longrightarrow> processIndividualFile env file [] = (Inl TooLargeToProcess, [])"
    by (subst processIndividualFile.simps) simp
next
  show "MAX_FILE_SIZE = 1048576" by (simp add: MAX_FILE_SIZE_def)
next
  show "MAX_PREMIUM_FILE_SIZE = 5242880" by (simp add: MAX_PREMIUM_FILE_SIZE_def)
next
  from pdfPagesLoop_trace[of env "[1..<Suc numPages]" "\<lparr>raw = [], bankType = js ''Desconocido'', pages = []\<rparr>" "[]"]
  obtain ev where "snd (processPdfByPages env numPages) = ev" "payloadsWithin MAX_PREMIUM_FILE_SIZE ev"
    by (auto simp: processPdfByPages_def)
  then show "\<forall>f. Send f \<in> set (snd (processPdfByPages env numPages))
         \<longrightarrow> fileSize f \<le> MAX_PREMIUM_FILE_SIZE"
    by (simp add: payloadsWithin_iff)
next
  show "snd (processImagePages env (imageFiles @ moreFiles))
        = snd (processImagePages env imageFiles) @ snd (processImagePages env moreFiles)"
    by (simp add: processImagePages_traces)
next
  have "snd (processImagePages env [file]) = pageTrace env file"
    by (simp add: processImagePages_traces)
  then show "snd (processImagePages env [file])
        = (if 996147 < fileSize file
           then (case compressImageInBrowser env file
                        \<lparr>quality = Some 65, maxWidth = Some 1500, maxHeight = None\<rparr> of
                   Inl e \<Rightarrow> Compress file # snd (processIndividualFile env file [])
                 | Inr c \<Rightarrow> Compress file # snd (processIndividualFile env c []))
           else snd (processIndividualFile env file []))"
    by (simp add: pageTrace_cases)
qed

theorem remote_payload_ceiling_witness:
  "MAX_PREMIUM_FILE_SIZE < fileSize \<lparr>fileSize = 6291456, fileType = js ''image/png''\<rparr>
   \<and> startsWith (fileType \<lparr>fileSize = 6291456, fileType = js ''image/png''\<rparr>) (js ''image/'')
   \<and> processIndividualFile env0 \<lparr>fileSize = 6291456, fileType = js ''image/png''\<rparr> []
       = (Inl TooLargeAfterCompress, [Compress \<lparr>fileSize = 6291456, fileType = js ''image/png''\<rparr>])
   \<and> fileSize \<lparr>fileSize = 2097152, fileType = js ''image/png''\<rparr> \<le> MAX_PREMIUM_FILE_SIZE
   \<and> snd (processIndividualFile env0 \<lparr>fileSize = 2097152, fileType = js ''image/png''\<rparr> [])
       = [Send \<lparr>fileSize = 2097152, fileType = js ''image/png''\<rparr>]
   \<and> snd (processImagePages env1 [\<lparr>fileSize = 2097152, fileType = js ''image/png''\<rparr>])
       = [Compress \<lparr>fileSize = 2097152, fileType = js ''image/png''\<rparr>,
          Send \<lparr>fileSize = 2097152, fileType = js ''image/png''\<rparr>]
   \<and> snd (processImagePages env1 [\<lparr>fileSize = 996148, fileType = js ''image/png''\<rparr>])
       = [Compress \<lparr>fileSize = 996148, fileType = js ''image/png''\<rparr>,
          Send \<lparr>fileSize = 996148, fileType = js ''image/png''\<rparr>]
   \<and> snd (processImagePages env1 [\<lparr>fileSize = 996147, fileType = js ''image/png''\<rparr>])
       = [Send \<lparr>fileSize = 996147, fileType = js ''image/png''\<rparr>]"
  using remote_payload_ceiling [of env0 "[]" "\<lparr>fileSize = 6291456, fileType = js ''image/png''\<rparr>" 0 "[]"]
    remote_payload_ceiling [of env0 "[]" "\<lparr>fileSize = 2097152, fileType = js ''image/png''\<rparr>" 0 "[]"]
    remote_payload_ceiling [of env1 "[]" "\<lparr>fileSize = 2097152, fileType = js ''image/png''\<rparr>" 0 "[]"]
    remote_payload_ceiling [of env1 "[]" "\<lparr>fileSize = 996148, fileType = js ''image/png''\<rparr>" 0 "[]"]
    remote_payload_ceiling [of env1 "[]" "\<lparr>fileSize = 996147, fileType = js ''image/png''\<rparr>" 0 "[]"]
  by (simp add: env0_def env1_def compressImageInBrowser_def js_def)


text \<open>
  A payload above the free limit of 1 MiB is sent: a page image of 2 MiB that the
  encoder brings down to 1.5 MiB goes out at 1.5 MiB, and \<open>processIndividualFile\<close>
  posts a file of 2 MiB without any compression.
\<close>

theorem oversized_payload_sent:
  "snd (processImagePages env0 [\<lparr>fileSize = 2097152, fileType = js ''image/jpeg''\<rparr>])
     = [Compress \<lparr>fileSize = 2097152, fileType = js ''image/jpeg''\<rparr>,
        Send \<lparr>fileSize = 1572864, fileType = js ''image/jpeg''\<rparr>]
   \<and> MAX_FILE_SIZE < 1572864
   \<and> processIndividualFile env0 \<lparr>fileSize = 2097152, fileType = js ''image/png''\<rparr> []
       = (Inr \<lparr>raw = js ''HSBC 1'' @ [10], bankType = js ''HSBC''\<rparr>,
          [Send \<lparr>fileSize = 2097152, fileType = js ''image/png''\<rparr>])"
  by (simp add: ev5)


section \<open>Text layout: the order of the rows\<close>

text \<open>
  C7. The rows are meant to come out from the top of the page to the bottom, joined with
  newlines. The comparator of \<open>organizeIntoRows\<close> sorts by rising \<open>transform[5]\<close>, that
  is from the bottom of the page to the top, and the rows are joined with a backslash
  and the letter n: an item \<open>A\<close> at the top and an item \<open>B\<close> at the bottom of a page of
  height 800 come out as \<open>B\<close>, backslash, \<open>n\<close>, \<open>A\<close>, in whichever order they are given.
\<close>

theorem rows_bottom_first:
  "processTextContent [glyph ''A'' 50 700 10, glyph ''B'' 50 100 10] 800 = js ''B'' @ [92, 110] @ js ''A''
   \<and> processTextContent [glyph ''B'' 50 100 10, glyph ''A'' 50 700 10] 800 = js ''B'' @ [92, 110] @ js ''A''
   \<and> js ''B'' @ [92, 110] @ js ''A'' \<noteq> js ''A'' @ [10] @ js ''B''"
  by code_simp


section \<open>Text layout: empty items\<close>

lemma foldl_lineStep_skip:
  "cleanItemText (str g) = [] \<Longrightarrow> foldl lineStep st (xs @ g # ys) = foldl lineStep st (xs @ ys)"
  by (simp add: lineStep_def)

lemma cleanItemText_empty: "cleanItemText [] = []"
  by (simp add: cleanItemText_def trimJs_def replaceAll_def constRule_def exec_def plusCls_def sq_def)

lemmas evL = pageLines_def lineStep_def cleanItemText_def trimJs_def replaceAll_def constRule_def exec_def plusCls_def sq_def glyph_def js_def isSpace_def isControl_def Let_def
text \<open>
  C8, as amended. An empty list of items yields the empty string. In the item loop of
  \<open>extractTextFromPDF\<close> an item whose cleaned text is empty, an item with an empty string
  among them, is skipped entirely: it leaves the state of the loop as it is, and the
  lines of the page are those of the page without it.
\<close>

theorem empty_list_and_skipped_items:
  "processTextContent [] pageHeight = []
   \<and> (cleanItemText (str g) = []
        \<longrightarrow> lineStep st g = st \<and> pageLines (xs @ g # ys) t = pageLines (xs @ ys) t)
   \<and> (str g = [] \<longrightarrow> cleanItemText (str g) = [])"
proof (intro conjI impI)
  show "processTextContent [] pageHeight = []" by (simp add: processTextContent_def)
next
  assume "cleanItemText (str g) = []"
  then show "lineStep st g = st" by (simp add: lineStep_def)
next
  assume "cleanItemText (str g) = []"
  then show "pageLines (xs @ g # ys) t = pageLines (xs @ ys) t"
    by (simp only: pageLines_def foldl_lineStep_skip)
next
  assume "str g = []"
  then show "cleanItemText (str g) = []" by (simp only: cleanItemText_empty)
qed

theorem empty_list_and_skipped_items_witness:
  "cleanItemText (str (glyph '' '' 10 50 0)) = []
   \<and> pageLines ([glyph ''A'' 10 100 10] @ glyph '' '' 10 50 0 # [glyph ''B'' 20 100 5]) []
      = pageLines ([glyph ''A'' 10 100 10] @ [glyph ''B'' 20 100 5]) []
   \<and> pageLines ([glyph ''A'' 10 100 10] @ [glyph ''B'' 20 100 5]) [] = js ''A B'' @ [10]"
proof -
  have c: "cleanItemText (str (glyph '' '' 10 50 0)) = []" by code_simp
  have v: "pageLines ([glyph ''A'' 10 100 10] @ [glyph ''B'' 20 100 5]) [] = js ''A B'' @ [10]"
    by (simp add: evL)
  from empty_list_and_skipped_items [of 0 "glyph '' '' 10 50 0" "\<lparr>fullText = [], lineText = [], lastY = None\<rparr>" "[glyph ''A'' 10 100 10]" "[glyph ''B'' 20 100 5]" "[]"]
  have "cleanItemText (str (glyph '' '' 10 50 0)) = [] \<longrightarrow>
     pageLines ([glyph ''A'' 10 100 10] @ glyph '' '' 10 50 0 # [glyph ''B'' 20 100 5]) []
      = pageLines ([glyph ''A'' 10 100 10] @ [glyph ''B'' 20 100 5]) []"
    by blast
  with c v show ?thesis by blast
qed

text \<open>
  \<open>processTextContent\<close> skips no item. An item with an empty string and no width between
  \<open>A\<close> and \<open>B\<close> changes the spaces between them from ten to eleven, and one on a line
  of its own opens a row.
\<close>

theorem empty_glyph_not_skipped:
  "processTextContent [glyph ''A'' 10 100 10, glyph '''' 100 100 0, glyph ''B'' 104 100 10] 800
     = js ''A'' @ replicate 11 32 @ js ''B''
   \<and> processTextContent [glyph ''A'' 10 100 10, glyph ''B'' 104 100 10] 800
     = js ''A'' @ replicate 10 32 @ js ''B''
   \<and> processTextContent [glyph ''A'' 10 100 10, glyph '''' 10 50 0] 800 = [92, 110] @ js ''A''
   \<and> processTextContent [glyph ''A'' 10 100 10] 800 = js ''A''"
  by code_simp


section \<open>Facts about global replacement\<close>

lemma count_list_append [simp]: "count_list (a @ b) x = count_list a x + count_list b x"
  by (induction a) auto

lemma count_take_drop: "count_list s x = count_list (take n s) x + count_list (drop n s) x"
  by (metis append_take_drop_id count_list_append)

lemma scan_addsNo:
  assumes "addsNo m x"
  shows "x \<in> set (scan m p k s) \<Longrightarrow> x \<in> set s"
proof (induction s arbitrary: p k)
  case Nil
  show ?case
  proof (cases "m p []")
    case None
    then show ?thesis using Nil by (cases k) simp_all
  next
    case (Some nr)
    obtain n r where nr: "nr = (n, r)" by (cases nr)
    have "x \<in> set r \<Longrightarrow> x \<in> set []"
      using assms Some nr unfolding addsNo_def by blast
    then show ?thesis using Nil Some nr by (cases k) simp_all
  qed
next
  case (Cons c cs)
  show ?case
  proof (cases k)
    case (Suc k')
    then show ?thesis using Cons by simp
  next
    case 0
    show ?thesis
    proof (cases "m p (c # cs)")
      case None
      then show ?thesis using Cons 0 by auto
    next
      case (Some nr)
      obtain n r where nr: "nr = (n, r)" by (cases nr)
      have r: "x \<in> set r \<Longrightarrow> x \<in> set (c # cs)"
        using assms Some nr unfolding addsNo_def by blast
      show ?thesis
      proof (cases n)
        case 0
        with Cons.prems \<open>k = 0\<close> Some nr
        have "x \<in> set r \<or> x = c \<or> x \<in> set (scan m (Some c) 0 cs)" by auto
        then show ?thesis using r Cons.IH by auto
      next
        case (Suc n')
        with Cons.prems \<open>k = 0\<close> Some nr
        have "x \<in> set r \<or> x \<in> set (scan m (Some c) n' cs)" by auto
        then show ?thesis using r Cons.IH by auto
      qed
    qed
  qed
qed

lemma scan_keepsChar:
  assumes "keepsChar m x"
  shows "count_list (drop k s) x \<le> count_list (scan m p k s) x"
proof (induction s arbitrary: p k)
  case Nil
  then show ?case by simp
next
  case (Cons c cs)
  show ?case
  proof (cases k)
    case (Suc k')
    then show ?thesis using Cons[of k' "Some c"] by simp
  next
    case 0
    show ?thesis
    proof (cases "m p (c # cs)")
      case None
      then show ?thesis using Cons[of 0 "Some c"] 0 by auto
    next
      case (Some nr)
      obtain n r where nr: "nr = (n, r)" by (cases nr)
      have r: "count_list (take n (c # cs)) x \<le> count_list r x"
        using assms Some nr unfolding keepsChar_def by blast
      show ?thesis
      proof (cases n)
        case 0
        then show ?thesis using Cons[of 0 "Some c"] \<open>k = 0\<close> Some nr by auto
      next
        case (Suc n')
        have "count_list (c # cs) x = count_list (take n (c # cs)) x + count_list (drop n' cs) x"
          using count_take_drop[of "c # cs" x n] Suc by simp
        also have "\<dots> \<le> count_list r x + count_list (scan m (Some c) n' cs) x"
          using r Cons[of n' "Some c"] by simp
        finally show ?thesis using \<open>k = 0\<close> Some nr Suc by simp
      qed
    qed
  qed
qed

lemma cls_Some: "cls P (p, s) k = Some r \<longleftrightarrow> (\<exists>c cs. s = c # cs \<and> P c \<and> k (Some c, cs) = Some r)"
  by (cases s) auto

lemma upperAscii_eq: "upperAscii c = upperAscii x \<Longrightarrow> c \<noteq> 115 \<or> x = 115 \<or> x = 83"
  by (auto simp: upperAscii_def split: if_splits)

lemma exec_noRegex:
  "exec noRegex p s = Some n \<Longrightarrow> \<exists>a b c rest. s = a # b # c # rest \<and> n = 3 \<and> a \<noteq> 115 \<and> b \<noteq> 115 \<and> c \<noteq> 115"
  by (auto simp: exec_def noRegex_def sq_def clsI_def cls_Some upperAscii_def split: option.splits if_splits)

lemma exec_numRegex:
  "exec numRegex p s = Some n \<Longrightarrow>
     \<exists>a b c d rest. s = a # b # c # d # rest \<and> n = 4 \<and> a \<noteq> 115 \<and> b \<noteq> 115 \<and> c \<noteq> 115 \<and> d \<noteq> 115"
  by (auto simp: exec_def numRegex_def sq_def clsI_def cls_Some upperAscii_def split: option.splits if_splits)

lemma exec_refRegex:
  "exec refRegex p s = Some n \<Longrightarrow>
     \<exists>a b c d rest. s = a # b # c # d # rest \<and> n = 4 \<and> a \<noteq> 115 \<and> b \<noteq> 115 \<and> c \<noteq> 115 \<and> d \<noteq> 115"
  by (auto simp: exec_def refRegex_def sq_def clsI_def cls_Some upperAscii_def split: option.splits if_splits)

lemma keeps_spaced: "x \<noteq> 32 \<Longrightarrow> keepsChar spacedDigitsRule x"
  by (auto simp: keepsChar_def spacedDigitsRule_def split: list.splits if_splits)

lemma keeps_thousands: "x \<noteq> 44 \<Longrightarrow> keepsChar thousandsRule x"
  by (auto simp: keepsChar_def thousandsRule_def split: list.splits if_splits)

lemma bracketRule_Some:
  assumes "bracketRule p s = Some (n, r)"
  shows "\<exists>after. s = 91 # r @ 93 # after \<and> n = length r + 2"
proof -
  from assms obtain rest where s: "s = 91 # rest"
    by (auto simp: bracketRule_def split: list.splits if_splits)
  let ?P = "\<lambda>x. x \<noteq> 93 \<and> \<not> isLineTerminator x"
  let ?inner = "takeWhile ?P rest"
  from assms s obtain after where d: "drop (length ?inner) rest = 93 # after" and r: "r = ?inner"
    and n: "n = length ?inner + 2"
    by (auto simp: bracketRule_def Let_def split: list.splits if_splits)
  have "rest = ?inner @ drop (length ?inner) rest"
    by (metis append_take_drop_id takeWhile_eq_take)
  then have "rest = r @ 93 # after" using d r by simp
  then have "s = 91 # r @ 93 # after \<and> n = length r + 2" using s n r by simp
  then show ?thesis by blast
qed

lemma keeps_bracket: "x \<noteq> 91 \<Longrightarrow> x \<noteq> 93 \<Longrightarrow> keepsChar bracketRule x"
  unfolding keepsChar_def
proof (intro allI impI)
  fix p s n r
  assume x: "x \<noteq> 91" "x \<noteq> 93" and m: "bracketRule p s = Some (n, r)"
  from bracketRule_Some[OF m] obtain after where "s = 91 # r @ 93 # after" "n = length r + 2" by blast
  then have "take n s = 91 # r @ [93]" by simp
  then show "count_list (take n s) x \<le> count_list r x" using x by simp
qed

lemma keeps_no: "keepsChar (constRule noRegex tok) 115"
  unfolding keepsChar_def constRule_def
  by (auto split: option.splits dest!: exec_noRegex)

lemma keeps_num: "keepsChar (constRule numRegex tok) 115"
  unfolding keepsChar_def constRule_def
  by (auto split: option.splits dest!: exec_numRegex)

lemma keeps_ref: "keepsChar (constRule refRegex tok) 115"
  unfolding keepsChar_def constRule_def
  by (auto split: option.splits dest!: exec_refRegex)

lemma adds_spaced: "addsNo spacedDigitsRule x"
  by (auto simp: addsNo_def spacedDigitsRule_def split: list.splits if_splits)

lemma adds_thousands: "addsNo thousandsRule x"
  by (auto simp: addsNo_def thousandsRule_def split: list.splits if_splits)

lemma adds_bracket: "addsNo bracketRule x"
  unfolding addsNo_def by (auto dest!: bracketRule_Some)

lemma adds_const: "x \<notin> set tok \<Longrightarrow> addsNo (constRule r tok) x"
  by (auto simp: addsNo_def constRule_def split: option.splits)

lemma repair_keeps_s: "count_list t 115 \<le> count_list (repairNumbersAndWords t) 115"
proof -
  have step: "keepsChar m 115 \<Longrightarrow> count_list u 115 \<le> count_list (scan m None 0 u) 115" for m u
    using scan_keepsChar[of m 115 0 u None] by simp
  let ?a = "scan spacedDigitsRule None 0 t"
  let ?b = "scan thousandsRule None 0 ?a"
  let ?c = "scan bracketRule None 0 ?b"
  let ?d = "replaceAll noRegex numeroWord ?c"
  let ?e = "replaceAll numRegex numeroWord ?d"
  let ?f = "replaceAll refRegex (js ''Referencia'') ?e"
  have "count_list t 115 \<le> count_list ?a 115" by (rule step) (simp add: keeps_spaced)
  also have "\<dots> \<le> count_list ?b 115" by (rule step) (simp add: keeps_thousands)
  also have "\<dots> \<le> count_list ?c 115" by (rule step) (simp add: keeps_bracket)
  also have "\<dots> \<le> count_list ?d 115" unfolding replaceAll_def by (rule step) (rule keeps_no)
  also have "\<dots> \<le> count_list ?e 115" unfolding replaceAll_def by (rule step) (rule keeps_num)
  also have "\<dots> \<le> count_list ?f 115" unfolding replaceAll_def by (rule step) (rule keeps_ref)
  finally show ?thesis by (simp add: repairNumbersAndWords_def Let_def)
qed

lemma repair_adds_no:
  assumes "x \<notin> set numeroWord" and "x \<notin> set (js ''Referencia'')"
  shows "x \<in> set (repairNumbersAndWords t) \<Longrightarrow> x \<in> set t"
  unfolding repairNumbersAndWords_def Let_def replaceAll_def
  using assms
  by (blast dest: scan_addsNo[OF adds_const] scan_addsNo[OF adds_bracket]
      scan_addsNo[OF adds_thousands] scan_addsNo[OF adds_spaced])


section \<open>Facts about the character table\<close>

lemma substituteChars_map:
  assumes "\<And>c v. m c = Some v \<Longrightarrow> length v = 1"
  shows "substituteChars m t = map (charOf m) t"
proof (induction t)
  case Nil
  then show ?case by simp
next
  case (Cons c t)
  show ?case
  proof (cases "m c")
    case None
    then show ?thesis using Cons by (simp add: charOf_def)
  next
    case (Some v)
    then have "length v = 1" by (rule assms)
    then obtain y where "v = [y]" by (cases v) auto
    then show ?thesis using Cons Some by (simp add: charOf_def)
  qed
qed

lemma entries_singletons:
  "\<forall>e \<in> set (bankCharEntries @ punctuationEntries). length (snd e) = 1 \<and> hd (snd e) \<notin> {243, 233, 237}"
  by code_simp
lemma objectLiteral_SomeD: "objectLiteral es c = Some v \<Longrightarrow> (c, v) \<in> set es"
  unfolding objectLiteral_def by (drule map_of_SomeD) simp

lemma full_values:
  assumes "objectLiteral (bankCharEntries @ punctuationEntries) c = Some v"
  shows "length v = 1" and "hd v \<notin> {243, 233, 237}"
  using entries_singletons objectLiteral_SomeD[OF assms] by force+

lemma simple_values:
  assumes "objectLiteral bankCharEntries c = Some v"
  shows "length v = 1" and "hd v \<notin> {243, 233, 237}"
proof -
  have "(c, v) \<in> set (bankCharEntries @ punctuationEntries)"
    using objectLiteral_SomeD[OF assms] by simp
  then show "length v = 1" and "hd v \<notin> {243, 233, 237}"
    using entries_singletons by force+
qed

lemma full_lookups:
  "charOf (objectLiteral (bankCharEntries @ punctuationEntries)) 243 = 51"
  "charOf (objectLiteral (bankCharEntries @ punctuationEntries)) 233 = 105"
  "charOf (objectLiteral (bankCharEntries @ punctuationEntries)) 237 = 109"
  "charOf (objectLiteral (bankCharEntries @ punctuationEntries)) 250 = 115"
  "charOf (objectLiteral (bankCharEntries @ punctuationEntries)) 115 = 115"
  by code_simp+
lemma simple_lookups:
  "charOf (objectLiteral bankCharEntries) 243 = 51"
  "charOf (objectLiteral bankCharEntries) 233 = 105"
  "charOf (objectLiteral bankCharEntries) 237 = 109"
  "charOf (objectLiteral bankCharEntries) 250 = 115"
  "charOf (objectLiteral bankCharEntries) 115 = 115"
  by code_simp+

lemma count_mapped:
  fixes f :: "nat \<Rightarrow> nat"
  assumes "f 115 = 115" and "f 250 = 115"
  shows "count_list t 115 + count_list t 250 \<le> count_list (map f t) 115"
  using assms by (induction t) auto

lemma tokens_plain:
  "243 \<notin> set numeroWord" "233 \<notin> set numeroWord" "237 \<notin> set numeroWord"
  "243 \<notin> set (js ''Referencia'')" "233 \<notin> set (js ''Referencia'')" "237 \<notin> set (js ''Referencia'')"
  by (simp_all add: numeroWord_def js_def)

lemma normalize_not_identity:
  assumes vals: "\<forall>c v. m c = Some v \<longrightarrow> length v = 1 \<and> hd v \<notin> {243, 233, 237}"
    and look: "charOf m 243 = 51" "charOf m 233 = 105" "charOf m 237 = 109" "charOf m 250 = 115"
      "charOf m 115 = 115"
  shows "243 \<notin> set (repairNumbersAndWords (substituteChars m t))"
    and "233 \<notin> set (repairNumbersAndWords (substituteChars m t))"
    and "237 \<notin> set (repairNumbersAndWords (substituteChars m t))"
    and "250 \<in> set t \<Longrightarrow> repairNumbersAndWords (substituteChars m t) \<noteq> t"
proof -
  have sub: "substituteChars m t = map (charOf m) t"
    using vals by (intro substituteChars_map) blast
  have img: "charOf m c \<notin> {243, 233, 237}" for c
  proof (cases "m c")
    case None
    then have "charOf m c = c" by (simp add: charOf_def)
    moreover have "c \<noteq> 243" "c \<noteq> 233" "c \<noteq> 237"
      using None look by (auto simp: charOf_def)
    ultimately show ?thesis by simp
  next
    case (Some v)
    then show ?thesis using vals by (simp add: charOf_def)
  qed
  have mapped: "243 \<notin> set (map (charOf m) t)" "233 \<notin> set (map (charOf m) t)"
    "237 \<notin> set (map (charOf m) t)"
    using img by auto
  show "243 \<notin> set (repairNumbersAndWords (substituteChars m t))"
    using repair_adds_no[OF tokens_plain(1) tokens_plain(4)] mapped(1) sub by metis
  show "233 \<notin> set (repairNumbersAndWords (substituteChars m t))"
    using repair_adds_no[OF tokens_plain(2) tokens_plain(5)] mapped(2) sub by metis
  show "237 \<notin> set (repairNumbersAndWords (substituteChars m t))"
    using repair_adds_no[OF tokens_plain(3) tokens_plain(6)] mapped(3) sub by metis
  show "repairNumbersAndWords (substituteChars m t) \<noteq> t" if u: "250 \<in> set t"
  proof
    assume eq: "repairNumbersAndWords (substituteChars m t) = t"
    have "count_list t 250 \<noteq> 0" using u count_list_0_iff[of t 250] by blast
    then have "0 < count_list t 250" by simp
    then have "count_list t 115 < count_list t 115 + count_list t 250" by simp
    also have "\<dots> \<le> count_list (map (charOf m) t) 115"
      using look by (intro count_mapped) simp_all
    also have "\<dots> \<le> count_list (repairNumbersAndWords (map (charOf m) t)) 115"
      by (rule repair_keeps_s)
    also have "\<dots> = count_list t 115" using eq sub by simp
    finally show False by simp
  qed
qed



section \<open>Normalisation of bank text: accented vowels\<close>

text \<open>
  C10. The character loop of \<open>normalizeBankText\<close> rewrites every character of every input
  by the table: at each position an accented o (243) becomes \<open>3\<close>, an accented e (233)
  becomes \<open>i\<close>, an accented i (237) becomes \<open>m\<close> and an accented u (250) becomes \<open>s\<close>.
  The result of the function never holds the first three of these letters, and on every
  text that holds one of the four, clean Spanish included, neither copy of the function
  is the identity.
\<close>

theorem normalizeBankText_rewrites_accents:
  "length (substituteChars (objectLiteral (bankCharEntries @ punctuationEntries)) text) = length text
   \<and> (\<forall>i < length text.
         (text ! i = 243
            \<longrightarrow> substituteChars (objectLiteral (bankCharEntries @ punctuationEntries)) text ! i = 51)
       \<and> (text ! i = 233
            \<longrightarrow> substituteChars (objectLiteral (bankCharEntries @ punctuationEntries)) text ! i = 105)
       \<and> (text ! i = 237
            \<longrightarrow> substituteChars (objectLiteral (bankCharEntries @ punctuationEntries)) text ! i = 109)
       \<and> (text ! i = 250
            \<longrightarrow> substituteChars (objectLiteral (bankCharEntries @ punctuationEntries)) text ! i = 115))
   \<and> 243 \<notin> set (normalizeBankText text) \<and> 233 \<notin> set (normalizeBankText text)
   \<and> 237 \<notin> set (normalizeBankText text)
   \<and> (243 \<in> set text \<or> 233 \<in> set text \<or> 237 \<in> set text \<or> 250 \<in> set text
        \<longrightarrow> normalizeBankText text \<noteq> text \<and> normalizeBankText_simple text \<noteq> text)"
proof -
  let ?m = "objectLiteral (bankCharEntries @ punctuationEntries)"
  let ?m' = "objectLiteral bankCharEntries"
  have vals: "\<forall>c v. ?m c = Some v \<longrightarrow> length v = 1 \<and> hd v \<notin> {243, 233, 237}"
    using full_values by blast
  have vals': "\<forall>c v. ?m' c = Some v \<longrightarrow> length v = 1 \<and> hd v \<notin> {243, 233, 237}"
    using simple_values by blast
  have sub: "substituteChars ?m text = map (charOf ?m) text"
    using vals by (intro substituteChars_map) blast
  note full = normalize_not_identity[where m = "?m" and t = "text", OF vals full_lookups]
  note simple = normalize_not_identity[where m = "?m'" and t = "text", OF vals' simple_lookups]
  have a: "length (substituteChars ?m text) = length text" by (simp add: sub)
  have b: "\<forall>i < length text.
         (text ! i = 243 \<longrightarrow> substituteChars ?m text ! i = 51)
       \<and> (text ! i = 233 \<longrightarrow> substituteChars ?m text ! i = 105)
       \<and> (text ! i = 237 \<longrightarrow> substituteChars ?m text ! i = 109)
       \<and> (text ! i = 250 \<longrightarrow> substituteChars ?m text ! i = 115)"
    by (simp add: sub full_lookups)
  have c: "243 \<notin> set (normalizeBankText text) \<and> 233 \<notin> set (normalizeBankText text)
      \<and> 237 \<notin> set (normalizeBankText text)"
    using full(1,2,3) by (simp add: normalizeBankText_def)
  have c': "243 \<notin> set (normalizeBankText_simple text) \<and> 233 \<notin> set (normalizeBankText_simple text)
      \<and> 237 \<notin> set (normalizeBankText_simple text)"
    using simple(1,2,3) by (simp add: normalizeBankText_simple_def)
  have d: "normalizeBankText text \<noteq> text \<and> normalizeBankText_simple text \<noteq> text"
    if h: "243 \<in> set text \<or> 233 \<in> set text \<or> 237 \<in> set text \<or> 250 \<in> set text"
  proof (cases "250 \<in> set text")
    case True
    then have "text \<noteq> []" by auto
    then show ?thesis using full(4)[OF True] simple(4)[OF True]
      by (simp add: normalizeBankText_def normalizeBankText_simple_def)
  next
    case False
    with h have "243 \<in> set text \<or> 233 \<in> set text \<or> 237 \<in> set text" by simp
    then show ?thesis using c c' by metis
  qed
  from a b c d show ?thesis by blast
qed

theorem normalizeBankText_rewrites_accents_witness:
  "243 \<in> set (js ''adi'' @ [243] @ js ''s'')
   \<and> (js ''adi'' @ [243] @ js ''s'') ! 3 = 243
   \<and> normalizeBankText (js ''adi'' @ [243] @ js ''s'') = js ''adi3s''
   \<and> normalizeBankText (js ''adi'' @ [243] @ js ''s'') \<noteq> js ''adi'' @ [243] @ js ''s''
   \<and> normalizeBankText_simple (js ''d'' @ [237] @ js ''a'') = js ''dma''"
proof -
  have v: "normalizeBankText (js ''adi'' @ [243] @ js ''s'') = js ''adi3s''"
    "normalizeBankText_simple (js ''d'' @ [237] @ js ''a'') = js ''dma''"
    by code_simp+
  have m: "243 \<in> set (js ''adi'' @ [243] @ js ''s'')"
    "(js ''adi'' @ [243] @ js ''s'') ! 3 = 243"
    by (simp_all add: js_def)
  from normalizeBankText_rewrites_accents [of "js ''adi'' @ [243] @ js ''s''"] m
  have "normalizeBankText (js ''adi'' @ [243] @ js ''s'') \<noteq> js ''adi'' @ [243] @ js ''s''"
    by blast
  with v m show ?thesis by simp
qed


section \<open>Facts about the matches of the redaction expressions\<close>

lemma lastOr_simps [simp]:
  "lastOr p [] = p" "lastOr p (u @ [c]) = Some c" "lastOr (lastOr p u) v = lastOr p (u @ v)"
  "lastOr p [c] = Some c"
  by (auto simp: lastOr_def)

lemma soundI:
  "(\<And>p s k r. a (p, s) k = Some r \<Longrightarrow> \<exists>w s'. s = w @ s' \<and> Q w \<and> k (lastOr p w, s') = Some r)
   \<Longrightarrow> sound a Q"
  unfolding sound_def by blast

lemma soundD:
  "sound a Q \<Longrightarrow> a (p, s) k = Some r \<Longrightarrow> \<exists>w s'. s = w @ s' \<and> Q w \<and> k (lastOr p w, s') = Some r"
  unfolding sound_def by blast

lemma sound_weaken: "sound a Q \<Longrightarrow> (\<And>w. Q w \<Longrightarrow> Q' w) \<Longrightarrow> sound a Q'"
  unfolding sound_def by blast

lemma splitI:
  "s = w @ s' \<Longrightarrow> Q w \<Longrightarrow> k (lastOr p w, s') = Some r
   \<Longrightarrow> \<exists>w s'. s = w @ s' \<and> Q w \<and> k (lastOr p w, s') = Some r"
  by (intro exI[of _ w] exI[of _ s']) simp

lemma sound_cls: "sound (cls P) (\<lambda>w. \<exists>c. w = [c] \<and> P c)"
proof (rule soundI)
  fix p s k r assume "cls P (p, s) k = Some r"
  then obtain c cs where "s = c # cs" "P c" "k (Some c, cs) = Some r"
    by (cases s) (auto split: if_splits)
  then show "\<exists>w s'. s = w @ s' \<and> (\<exists>c. w = [c] \<and> P c) \<and> k (lastOr p w, s') = Some r"
    by (intro splitI[of _ "[c]" cs]) simp_all
qed

lemma sound_sq:
  assumes "sound a Q" and "sound b R"
  shows "sound (sq a b) (\<lambda>w. \<exists>u v. w = u @ v \<and> Q u \<and> R v)"
proof (rule soundI)
  fix p s k r assume "sq a b (p, s) k = Some r"
  then have "a (p, s) (\<lambda>st'. b st' k) = Some r" by (simp add: sq_def)
  from soundD[OF assms(1) this] obtain u s1 where
    u: "s = u @ s1" "Q u" "b (lastOr p u, s1) k = Some r" by blast
  from soundD[OF assms(2) u(3)] obtain v s2 where
    v: "s1 = v @ s2" "R v" "k (lastOr (lastOr p u) v, s2) = Some r" by blast
  have 1: "s = (u @ v) @ s2" using u(1) v(1) by simp
  have 2: "\<exists>u' v'. u @ v = u' @ v' \<and> Q u' \<and> R v'" using u(2) v(2) by blast
  have 3: "k (lastOr p (u @ v), s2) = Some r" using v(3) by simp
  from 1 2 3 show "\<exists>w s'. s = w @ s' \<and> (\<exists>u v. w = u @ v \<and> Q u \<and> R v) \<and> k (lastOr p w, s') = Some r"
    by (intro splitI[of _ "u @ v" s2])
qed

lemma lazyStar_sound_aux:
  "lazyStar P (p, s) k = Some r \<Longrightarrow> \<exists>w s'. s = w @ s' \<and> (\<forall>c \<in> set w. P c) \<and> k (lastOr p w, s') = Some r"
proof (induction s arbitrary: p)
  case Nil
  then have "k (p, []) = Some r" by simp
  then show ?case by (intro splitI[of _ "[]" "[]"]) simp_all
next
  case (Cons c cs)
  show ?case
  proof (cases "k (p, c # cs)")
    case (Some r')
    then have "k (p, c # cs) = Some r" using Cons.prems by simp
    then show ?thesis by (intro splitI[of _ "[]" "c # cs"]) simp_all
  next
    case None
    then have pc: "P c" and rec: "lazyStar P (Some c, cs) k = Some r"
      using Cons.prems by (simp_all split: if_splits)
    from Cons.IH[OF rec] obtain w s' where
      w: "cs = w @ s'" "\<forall>c \<in> set w. P c" "k (lastOr (Some c) w, s') = Some r" by blast
    have "lastOr (Some c) w = lastOr p (c # w)" by (simp add: lastOr_def)
    then show ?thesis using w pc by (intro splitI[of _ "c # w" s']) simp_all
  qed
qed

lemma sound_lazyStar: "sound (lazyStar P) (\<lambda>w. \<forall>c \<in> set w. P c)"
  by (rule soundI) (rule lazyStar_sound_aux)

lemma greedyStar_sound_aux:
  "greedyStar P (p, s) k = Some r \<Longrightarrow> \<exists>w s'. s = w @ s' \<and> (\<forall>c \<in> set w. P c) \<and> k (lastOr p w, s') = Some r"
proof (induction s arbitrary: p)
  case Nil
  then have "k (p, []) = Some r" by simp
  then show ?case by (intro splitI[of _ "[]" "[]"]) simp_all
next
  case (Cons c cs)
  have stop: "k (p, c # cs) = Some r \<Longrightarrow> ?case"
    by (intro splitI[of _ "[]" "c # cs"]) simp_all
  show ?case
  proof (cases "P c")
    case False
    then show ?thesis using Cons.prems stop by simp
  next
    case True
    show ?thesis
    proof (cases "greedyStar P (Some c, cs) k")
      case None
      then show ?thesis using Cons.prems True stop by simp
    next
      case (Some r')
      then have rec: "greedyStar P (Some c, cs) k = Some r" using Cons.prems True by simp
      from Cons.IH[OF rec] obtain w s' where
        w: "cs = w @ s'" "\<forall>c \<in> set w. P c" "k (lastOr (Some c) w, s') = Some r" by blast
      have "lastOr (Some c) w = lastOr p (c # w)" by (simp add: lastOr_def)
      then show ?thesis using w True by (intro splitI[of _ "c # w" s']) simp_all
    qed
  qed
qed

lemma sound_greedyStar: "sound (greedyStar P) (\<lambda>w. \<forall>c \<in> set w. P c)"
  by (rule soundI) (rule greedyStar_sound_aux)

lemma pieces_Nil: "pieces Q 0 n []"
  unfolding pieces_def by (intro exI[of _ "[]"]) simp

lemma pieces_Cons:
  "Q u \<Longrightarrow> pieces Q lo hi v \<Longrightarrow> pieces Q (Suc lo) (Suc hi) (u @ v)"
proof -
  assume q: "Q u" and "pieces Q lo hi v"
  then obtain ws where ws: "v = concat ws" "lo \<le> length ws" "length ws \<le> hi" "\<forall>x \<in> set ws. Q x"
    unfolding pieces_def by blast
  have "u @ v = concat (u # ws) \<and> Suc lo \<le> length (u # ws) \<and> length (u # ws) \<le> Suc hi
      \<and> (\<forall>x \<in> set (u # ws). Q x)"
    using q ws by simp
  then show ?thesis unfolding pieces_def by blast
qed

lemma pieces_mono:
  assumes "pieces Q lo hi w" and "lo' \<le> lo" and "hi \<le> hi'"
  shows "pieces Q lo' hi' w"
proof -
  from assms(1) obtain ws where ws: "w = concat ws" "lo \<le> length ws" "length ws \<le> hi" "\<forall>x \<in> set ws. Q x"
    unfolding pieces_def by blast
  have "w = concat ws \<and> lo' \<le> length ws \<and> length ws \<le> hi' \<and> (\<forall>x \<in> set ws. Q x)"
    using ws assms(2,3) by simp
  then show ?thesis unfolding pieces_def by blast
qed

lemma sound_iter:
  assumes "sound a Q"
  shows "sound (iter n a) (pieces Q n n)"
proof (induction n)
  case 0
  show ?case
  proof (rule soundI)
    fix p s k r assume "iter 0 a (p, s) k = Some r"
    then have "k (p, s) = Some r" by simp
    then show "\<exists>w s'. s = w @ s' \<and> pieces Q 0 0 w \<and> k (lastOr p w, s') = Some r"
      by (intro splitI[of _ "[]" s]) (simp_all add: pieces_Nil)
  qed
next
  case (Suc n)
  show ?case
  proof (rule soundI)
    fix p s k r assume "iter (Suc n) a (p, s) k = Some r"
    then have "a (p, s) (\<lambda>st'. iter n a st' k) = Some r" by simp
    from soundD[OF assms this] obtain u s1 where
      u: "s = u @ s1" "Q u" "iter n a (lastOr p u, s1) k = Some r" by blast
    from soundD[OF Suc u(3)] obtain v s2 where
      v: "s1 = v @ s2" "pieces Q n n v" "k (lastOr (lastOr p u) v, s2) = Some r" by blast
    have "pieces Q (Suc n) (Suc n) (u @ v)"
      using u(2) v(2) by (rule pieces_Cons)
    then show "\<exists>w s'. s = w @ s' \<and> pieces Q (Suc n) (Suc n) w \<and> k (lastOr p w, s') = Some r"
      using u v by (intro splitI[of _ "u @ v" s2]) simp_all
  qed
qed

lemma sound_iterUpto:
  assumes "sound a Q"
  shows "sound (iterUpto n a) (pieces Q 0 n)"
proof (induction n)
  case 0
  show ?case
  proof (rule soundI)
    fix p s k r assume "iterUpto 0 a (p, s) k = Some r"
    then have "k (p, s) = Some r" by simp
    then show "\<exists>w s'. s = w @ s' \<and> pieces Q 0 0 w \<and> k (lastOr p w, s') = Some r"
      by (intro splitI[of _ "[]" s]) (simp_all add: pieces_Nil)
  qed
next
  case (Suc n)
  show ?case
  proof (rule soundI)
    fix p s k r assume run: "iterUpto (Suc n) a (p, s) k = Some r"
    show "\<exists>w s'. s = w @ s' \<and> pieces Q 0 (Suc n) w \<and> k (lastOr p w, s') = Some r"
    proof (cases "a (p, s) (\<lambda>st'. iterUpto n a st' k)")
      case None
      then have "k (p, s) = Some r" using run by simp
      then show ?thesis by (intro splitI[of _ "[]" s]) (simp_all add: pieces_Nil)
    next
      case (Some r')
      then have "a (p, s) (\<lambda>st'. iterUpto n a st' k) = Some r" using run by simp
      from soundD[OF assms this] obtain u s1 where
        u: "s = u @ s1" "Q u" "iterUpto n a (lastOr p u, s1) k = Some r" by blast
      from soundD[OF Suc u(3)] obtain v s2 where
        v: "s1 = v @ s2" "pieces Q 0 n v" "k (lastOr (lastOr p u) v, s2) = Some r" by blast
      have "pieces Q 0 (Suc n) (u @ v)"
        using pieces_Cons[OF u(2) v(2)] by (rule pieces_mono) simp_all
      then show ?thesis using u v by (intro splitI[of _ "u @ v" s2]) simp_all
    qed
  qed
qed

lemma pieces_append:
  assumes "pieces Q a b u" and "pieces Q c d v"
  shows "pieces Q (a + c) (b + d) (u @ v)"
proof -
  from assms(1) obtain ws where ws: "u = concat ws" "a \<le> length ws" "length ws \<le> b" "\<forall>x \<in> set ws. Q x"
    unfolding pieces_def by blast
  from assms(2) obtain ws' where ws': "v = concat ws'" "c \<le> length ws'" "length ws' \<le> d" "\<forall>x \<in> set ws'. Q x"
    unfolding pieces_def by blast
  have "u @ v = concat (ws @ ws') \<and> a + c \<le> length (ws @ ws') \<and> length (ws @ ws') \<le> b + d
      \<and> (\<forall>x \<in> set (ws @ ws'). Q x)"
    using ws ws' by auto
  then show ?thesis unfolding pieces_def by blast
qed

lemma sound_repeatRx:
  assumes "sound a Q" and "lo \<le> hi"
  shows "sound (repeatRx lo hi a) (pieces Q lo hi)"
proof -
  have "sound (repeatRx lo hi a) (\<lambda>w. \<exists>u v. w = u @ v \<and> pieces Q lo lo u \<and> pieces Q 0 (hi - lo) v)"
    unfolding repeatRx_def by (intro sound_sq sound_iter sound_iterUpto assms(1))
  then show ?thesis
  proof (rule sound_weaken)
    fix w assume "\<exists>u v. w = u @ v \<and> pieces Q lo lo u \<and> pieces Q 0 (hi - lo) v"
    then obtain u v where "w = u @ v" "pieces Q lo lo u" "pieces Q 0 (hi - lo) v" by blast
    then show "pieces Q lo hi w"
      using pieces_append[of Q lo lo u 0 "hi - lo" v] assms(2) by simp
  qed
qed

lemma isSep_not_digit: "isSep c \<Longrightarrow> \<not> isDigit c"
  by (auto simp: isSep_def isDigit_def)

lemma isDigit_word: "isDigit c \<Longrightarrow> isWordChar c"
  by (simp add: isWordChar_def)

lemma isSep_not_word: "isSep c \<Longrightarrow> \<not> isWordChar c"
  by (auto simp: isSep_def isWordChar_def isDigit_def isLetter_def)

lemma digitPiece_cardPiece: "digitPiece u \<Longrightarrow> cardPiece u"
  by (auto simp: digitPiece_def cardPiece_def)

lemma cardPieces_concat:
  assumes "\<forall>u \<in> set ws. cardPiece u"
  shows "(\<forall>c \<in> set (concat ws). isDigit c \<or> isSep c)
       \<and> length (filter isDigit (concat ws)) = length ws
       \<and> (ws \<noteq> [] \<longrightarrow> concat ws \<noteq> [] \<and> isDigit (hd (concat ws)))"
  using assms
proof (induction ws)
  case Nil
  then show ?case by simp
next
  case (Cons u ws)
  then obtain d seps where u: "u = d # seps" "isDigit d" "\<forall>c \<in> set seps. isSep c"
    by (auto simp: cardPiece_def)
  have "filter isDigit seps = []" using u(3) isSep_not_digit by (auto simp: filter_empty_conv)
  then show ?case using Cons u by auto
qed

lemma pieces_card_facts:
  assumes "pieces cardPiece lo hi w" and "0 < lo"
  shows "w \<noteq> []" and "isDigit (hd w)" and "\<forall>c \<in> set w. isDigit c \<or> isSep c"
    and "length (filter isDigit w) \<le> hi" and "lo \<le> length (filter isDigit w)"
proof -
  from assms(1) obtain ws where ws: "w = concat ws" "lo \<le> length ws" "length ws \<le> hi"
    "\<forall>u \<in> set ws. cardPiece u" unfolding pieces_def by blast
  have ne: "ws \<noteq> []" using ws(2) assms(2) by auto
  note f = cardPieces_concat[OF ws(4)]
  show "w \<noteq> []" "isDigit (hd w)" using f ne ws(1) by simp_all
  show "\<forall>c \<in> set w. isDigit c \<or> isSep c" using f ws(1) by simp
  show "length (filter isDigit w) \<le> hi" "lo \<le> length (filter isDigit w)"
    using f ws by simp_all
qed

lemma sound_digit: "sound (cls isDigit) digitPiece"
  using sound_cls[of isDigit] by (rule sound_weaken) (simp add: digitPiece_def)

lemma sound_cardPiece: "sound (sq (cls isDigit) (lazyStar isSep)) cardPiece"
  using sound_sq[OF sound_cls[of isDigit] sound_lazyStar[of isSep]]
  by (rule sound_weaken) (auto simp: cardPiece_def)

lemma bounded_exec:
  assumes "sound body Q" and "exec (sq wordb (sq body wordb)) p s = Some n"
  shows "\<exists>w s'. s = w @ s' \<and> n = length w \<and> Q w \<and> wordBefore p \<noteq> wordAfter s
            \<and> wordBefore (lastOr p w) \<noteq> wordAfter s'"
proof -
  let ?K = "\<lambda>(p', s'). Some (s' :: jsstring)"
  from assms(2) obtain rest where
    run: "sq wordb (sq body wordb) (p, s) ?K = Some rest" and n: "n = length s - length rest"
    by (auto simp: exec_def split: option.splits)
  from run have b: "wordBefore p \<noteq> wordAfter s" and
    body: "body (p, s) (\<lambda>st. wordb st ?K) = Some rest"
    by (auto simp: sq_def split: if_splits)
  from soundD[OF assms(1) body] obtain w s' where
    w: "s = w @ s'" "Q w" "wordb (lastOr p w, s') ?K = Some rest" by blast
  from w(3) have e: "wordBefore (lastOr p w) \<noteq> wordAfter s'" and "rest = s'"
    by (auto split: if_splits)
  then have "n = length w" using n w(1) by simp
  then show ?thesis using w(1,2) b e by (intro exI[of _ w] exI[of _ s']) simp
qed

lemma digitRule_bounded:
  assumes "sound body (pieces cardPiece lo hi)" and "0 < lo"
  shows "digitRule hi (constRule (sq wordb (sq body wordb)) tok)"
  unfolding digitRule_def
proof (intro allI impI)
  fix p s n r
  assume "constRule (sq wordb (sq body wordb)) tok p s = Some (n, r)"
  then have "exec (sq wordb (sq body wordb)) p s = Some n"
    by (auto simp: constRule_def split: option.splits)
  from bounded_exec[OF assms(1) this] obtain w s' where
    w: "s = w @ s'" "n = length w" "pieces cardPiece lo hi w" "wordBefore p \<noteq> wordAfter s"
      "wordBefore (lastOr p w) \<noteq> wordAfter s'" by blast
  note f = pieces_card_facts[OF w(3) assms(2)]
  have "wordAfter s" using w(1) f(1,2) by (cases w) (simp_all add: isDigit_word)
  then have nb: "\<not> wordBefore p" using w(4) by simp
  have "lastOr p w = Some (last w)" using f(1) by (simp add: lastOr_def)
  then have e: "isWordChar (last w) \<noteq> wordAfter s'" using w(5) by simp
  show "\<exists>w s'. s = w @ s' \<and> n = length w \<and> w \<noteq> [] \<and> isDigit (hd w)
           \<and> (\<forall>c \<in> set w. isDigit c \<or> isSep c) \<and> length (filter isDigit w) \<le> hi
           \<and> \<not> wordBefore p \<and> isWordChar (last w) \<noteq> wordAfter s'"
    using w(1,2) f nb e by (intro exI[of _ w] exI[of _ s']) simp
qed

lemma sound_pieces_weaken:
  "sound a (pieces digitPiece lo hi) \<Longrightarrow> sound a (pieces cardPiece lo hi)"
  by (erule sound_weaken) (auto simp: pieces_def digitPiece_cardPiece)

lemma digitRule_card: "digitRule 16 (constRule creditCardRegex tok)"
  unfolding creditCardRegex_def
  by (rule digitRule_bounded[OF sound_repeatRx[OF sound_cardPiece]]) simp_all

lemma digitRule_account: "digitRule 20 (constRule accountNumberRegex tok)"
  unfolding accountNumberRegex_def
  by (rule digitRule_bounded[OF sound_pieces_weaken[OF sound_repeatRx[OF sound_digit]]]) simp_all

lemma digitRule_clabe: "digitRule 18 (constRule clabeRegex tok)"
  unfolding clabeRegex_def
  by (rule digitRule_bounded[OF sound_pieces_weaken[OF sound_iter[OF sound_digit]]]) simp_all

lemma skips_inside:
  assumes "skips m run"
  shows "run = u @ v \<Longrightarrow> u \<noteq> []
     \<Longrightarrow> scan m (Some (last u)) 0 (v @ post) = v @ scan m (Some (last run)) 0 post"
proof (induction v arbitrary: u)
  case Nil
  then show ?case by simp
next
  case (Cons c cs)
  have "m (Some (last u)) ((c # cs) @ post) = None"
    using assms Cons.prems unfolding skips_def by blast
  moreover have "scan m (Some (last (u @ [c]))) 0 (cs @ post) = cs @ scan m (Some (last run)) 0 post"
    by (rule Cons.IH) (use Cons.prems in simp_all)
  ultimately show ?case by simp
qed

lemma skips_run:
  assumes "skips m run" and "run \<noteq> []"
  shows "scan m p 0 (run @ post) = run @ scan m (Some (last run)) 0 post"
proof -
  obtain d ds where run: "run = d # ds" using assms(2) by (cases run) auto
  have "m p (run @ post) = None"
  proof (cases "m p (run @ post)")
    case (Some nr)
    obtain n r where "nr = (n, r)" by (cases nr)
    with Some have "m p ([] @ run @ post) = Some (n, r)" by simp
    with assms(1) have "0 < n \<and> n \<le> length ([] :: jsstring)" unfolding skips_def by blast
    then have False by auto
    then show ?thesis ..
  qed simp
  moreover have "scan m (Some (last [d])) 0 (ds @ post) = ds @ scan m (Some (last run)) 0 post"
    by (rule skips_inside[OF assms(1)]) (simp_all add: run)
  ultimately show ?thesis by (simp add: run)
qed

lemma skips_scan:
  assumes "skips m run" and "run \<noteq> []"
  shows "k \<le> length pre
     \<Longrightarrow> \<exists>X. scan m p k (pre @ run @ post) = X @ run @ scan m (Some (last run)) 0 post"
proof (induction pre arbitrary: p k)
  case Nil
  then have "scan m p k ([] @ run @ post) = [] @ run @ scan m (Some (last run)) 0 post"
    using skips_run[OF assms] by simp
  then show ?case by (rule exI[of _ "[]"])
next
  case (Cons c cs)
  show ?case
  proof (cases k)
    case (Suc k')
    then have "k' \<le> length cs" using Cons.prems by simp
    from Cons.IH[OF this] obtain X where
      "scan m (Some c) k' (cs @ run @ post) = X @ run @ scan m (Some (last run)) 0 post" by blast
    then have "scan m p k ((c # cs) @ run @ post) = X @ run @ scan m (Some (last run)) 0 post"
      using Suc by simp
    then show ?thesis by (rule exI[of _ X])
  next
    case 0
    show ?thesis
    proof (cases "m p ((c # cs) @ run @ post)")
      case None
      from Cons.IH[of 0] obtain X where
        "scan m (Some c) 0 (cs @ run @ post) = X @ run @ scan m (Some (last run)) 0 post" by auto
      then have "scan m p k ((c # cs) @ run @ post) = (c # X) @ run @ scan m (Some (last run)) 0 post"
        using 0 None by simp
      then show ?thesis by (rule exI[of _ "c # X"])
    next
      case (Some nr)
      obtain n r where nr: "nr = (n, r)" by (cases nr)
      have "0 < n \<and> n \<le> length (c # cs)"
        using assms(1) Some nr unfolding skips_def by blast
      then obtain n' where n: "n = Suc n'" "n' \<le> length cs" by (cases n) auto
      from Cons.IH[OF n(2)] obtain X where
        "scan m (Some c) n' (cs @ run @ post) = X @ run @ scan m (Some (last run)) 0 post" by blast
      then have "scan m p k ((c # cs) @ run @ post) = (r @ X) @ run @ scan m (Some (last run)) 0 post"
        using 0 Some nr n by simp
      then show ?thesis by (rule exI[of _ "r @ X"])
    qed
  qed
qed

lemma digitRule_skips:
  assumes "digitRule hi m" and "\<forall>c \<in> set run. isDigit c" and "hi < length run"
  shows "skips m run"
  unfolding skips_def
proof (intro conjI allI impI)
  fix p a post n r
  assume "m p (a @ run @ post) = Some (n, r)"
  with assms(1) obtain w s' where w: "a @ run @ post = w @ s'" "n = length w" "w \<noteq> []"
    "length (filter isDigit w) \<le> hi" "isWordChar (last w) \<noteq> wordAfter s'"
    unfolding digitRule_def by blast
  show "0 < n" using w(2,3) by simp
  show "n \<le> length a"
  proof (rule ccontr)
    assume "\<not> n \<le> length a"
    then have long: "length a < length w" using w(2) by simp
    have wt: "w = take (length w) (a @ run @ post)" and sd: "s' = drop (length w) (a @ run @ post)"
      using w(1) by simp_all
    show False
    proof (cases "length w < length a + length run")
      case True
      define i where "i = length w - length a"
      have i: "0 < i" "i < length run" "length w = length a + i" using long True by (simp_all add: i_def)
      have w': "w = a @ take i run" using wt i by simp
      have s'': "s' = drop i run @ post" using sd i by simp
      have "take i run \<noteq> []" using i by auto
      then have "last w = last (take i run)" using w' by simp
      also have "\<dots> \<in> set (take i run)" using \<open>take i run \<noteq> []\<close> by (rule last_in_set)
      finally have "last w \<in> set run" by (rule in_set_takeD)
      then have 1: "isWordChar (last w)" using assms(2) isDigit_word by blast
      obtain e es where e: "drop i run = e # es" using i by (cases "drop i run") auto
      then have "e \<in> set (drop i run)" by simp
      then have "e \<in> set run" by (rule in_set_dropD)
      then have "wordAfter s'" using s'' e assms(2) isDigit_word by auto
      then show False using 1 w(5) by simp
    next
      case False
      then have "w = a @ run @ take (length w - length a - length run) post" using wt by simp
      then have "length (filter isDigit run) \<le> length (filter isDigit w)"
        by (metis filter_append le_add1 le_add2 le_trans length_append)
      moreover have "filter isDigit run = run" using assms(2) by (simp add: filter_id_conv)
      ultimately show False using w(4) assms(3) by simp
    qed
  qed
next
  fix u v post
  assume "run = u @ v" "u \<noteq> []" "v \<noteq> []"
  then have "last u \<in> set run" by simp
  then have wb: "wordBefore (Some (last u))" using assms(2) isDigit_word by auto
  show "m (Some (last u)) (v @ post) = None"
  proof (cases "m (Some (last u)) (v @ post)")
    case (Some nr)
    obtain n r where "nr = (n, r)" by (cases nr)
    with Some assms(1) have "\<not> wordBefore (Some (last u))" unfolding digitRule_def by blast
    then show ?thesis using wb by simp
  qed simp
qed

lemma over_simps [simp]:
  "over P []" "over P (c # w) \<longleftrightarrow> P c \<and> over P w" "over P (u @ v) \<longleftrightarrow> over P u \<and> over P v"
  by (auto simp: over_def)

lemma over_mono: "over P w \<Longrightarrow> (\<And>c. P c \<Longrightarrow> R c) \<Longrightarrow> over R w"
  by (auto simp: over_def)

lemma sound_plusCls: "sound (plusCls P) (\<lambda>w. w \<noteq> [] \<and> over P w)"
  unfolding plusCls_def
  using sound_sq[OF sound_cls[of P] sound_greedyStar[of P]]
  by (rule sound_weaken) (auto simp: over_def)

lemma sound_lit: "sound (lit xs) (\<lambda>w. w = xs)"
proof (induction xs)
  case Nil
  show ?case by (rule soundI) (auto intro: splitI[of _ "[]"])
next
  case (Cons x xs)
  show ?case unfolding lit.simps
    using sound_sq[OF sound_cls[of "\<lambda>c. c = x"] Cons]
    by (rule sound_weaken) auto
qed

lemma sound_optional:
  assumes "sound a Q"
  shows "sound (optional a) (\<lambda>w. w = [] \<or> Q w)"
  unfolding optional_def
  using sound_iterUpto[OF assms, of 1]
proof (rule sound_weaken)
  fix w assume "pieces Q 0 1 w"
  then obtain ws where ws: "w = concat ws" "length ws \<le> 1" "\<forall>u \<in> set ws. Q u"
    unfolding pieces_def by blast
  show "w = [] \<or> Q w"
  proof (cases ws)
    case Nil
    then show ?thesis using ws by simp
  next
    case (Cons u us)
    then have "us = []" using ws(2) by simp
    then show ?thesis using ws Cons by simp
  qed
qed

lemma sound_email: "sound emailRegex (\<lambda>w. 64 \<in> set w)"
proof -
  note rest = sound_sq[OF sound_plusCls[of isDomainChar]
      sound_sq[OF sound_cls[of "\<lambda>c. c = 46"]
        sound_sq[OF sound_iter[OF sound_cls[of isLetter], of 2] sound_greedyStar[of isLetter]]]]
  show ?thesis unfolding emailRegex_def
    using sound_sq[OF sound_plusCls[of isLocalChar] sound_sq[OF sound_cls[of "\<lambda>c. c = 64"] rest]]
    by (rule sound_weaken) auto
qed

lemma exec_sound:
  assumes "sound a Q" and "exec a p s = Some n"
  shows "n \<le> length s \<and> Q (take n s)"
proof -
  let ?K = "\<lambda>(p', s'). Some (s' :: jsstring)"
  from assms(2) obtain rest where
    run: "a (p, s) ?K = Some rest" and n: "n = length s - length rest"
    by (auto simp: exec_def split: option.splits)
  from soundD[OF assms(1) run] obtain w s' where w: "s = w @ s'" "Q w" "?K (lastOr p w, s') = Some rest"
    by blast
  then have "rest = s'" by simp
  then have "n = length w" using n w(1) by simp
  then show ?thesis using w(1,2) by simp
qed

lemma needs_email: "needsChar (constRule emailRegex tok) 64"
  unfolding needsChar_def
proof (intro allI impI)
  fix p s n r assume "constRule emailRegex tok p s = Some (n, r)"
  then have "exec emailRegex p s = Some n" by (auto simp: constRule_def split: option.splits)
  from exec_sound[OF sound_email this] have "64 \<in> set (take n s)" by simp
  then show "64 \<in> set s" by (rule in_set_takeD)
qed

lemma needsChar_None:
  assumes "needsChar m x" and "x \<notin> set s"
  shows "m p s = None"
proof (cases "m p s")
  case (Some nr)
  obtain n r where "nr = (n, r)" by (cases nr)
  with Some assms(1) have "x \<in> set s" unfolding needsChar_def by blast
  with assms(2) have False by simp
  then show ?thesis ..
qed simp

lemma needsChar_scan:
  assumes "needsChar m x"
  shows "x \<notin> set s \<Longrightarrow> scan m p 0 s = s"
proof (induction s arbitrary: p)
  case Nil
  then show ?case using needsChar_None[OF assms, of "[]" p] by simp
next
  case (Cons c cs)
  then show ?case using needsChar_None[OF assms, of "c # cs" p] by simp
qed

lemma isSpace_not_digit: "isSpace c \<Longrightarrow> \<not> isDigit c"
  by (auto simp: isSpace_def isDigit_def)

lemma nameUpper_not_digit: "isNameUpper c \<Longrightarrow> \<not> isDigit c"
  by (auto simp: isNameUpper_def isDigit_def)

lemma nameLower_not_digit: "isNameLower c \<Longrightarrow> \<not> isDigit c"
  by (auto simp: isNameLower_def isDigit_def)

lemma sound_nameWord: "sound nameWord (\<lambda>w. w \<noteq> [] \<and> over (\<lambda>c. \<not> isDigit c) w)"
  unfolding nameWord_def
  using sound_sq[OF sound_cls[of isNameUpper] sound_plusCls[of isNameLower]]
  by (rule sound_weaken) (auto simp: over_def nameUpper_not_digit nameLower_not_digit)

lemma sound_spaces: "sound (plusCls isSpace) (over (\<lambda>c. \<not> isDigit c))"
  using sound_plusCls[of isSpace]
  by (rule sound_weaken) (auto simp: over_def isSpace_not_digit)

lemma sound_over_sq:
  assumes "sound a (over P)" and "sound b (over P)"
  shows "sound (sq a b) (over P)"
  using sound_sq[OF assms] by (rule sound_weaken) auto

lemma sound_name: "sound nameRegex (\<lambda>w. w \<noteq> [] \<and> over (\<lambda>c. \<not> isDigit c) w)"
proof -
  let ?N = "over (\<lambda>c. \<not> isDigit c)"
  have word: "sound nameWord ?N" using sound_nameWord by (rule sound_weaken) simp
  have lit: "sound (lit (js ''Titular'')) (\<lambda>w. w \<noteq> [] \<and> ?N w)"
    using sound_lit[of "js ''Titular''"]
    by (rule sound_weaken) (simp add: js_def isDigit_def)
  have colon: "sound (optional (cls (\<lambda>c. c = 58))) ?N"
    using sound_optional[OF sound_cls[of "\<lambda>c. c = 58"]]
    by (rule sound_weaken) (auto simp: isDigit_def)
  have sp: "sound (greedyStar isSpace) ?N"
    using sound_greedyStar[of isSpace]
    by (rule sound_weaken) (auto simp: over_def isSpace_not_digit)
  have third: "sound (optional (sq (plusCls isSpace) nameWord)) ?N"
    using sound_optional[OF sound_over_sq[OF sound_spaces word]]
    by (rule sound_weaken) auto
  note rest = sound_over_sq[OF colon sound_over_sq[OF sp sound_over_sq[OF word
      sound_over_sq[OF sound_spaces sound_over_sq[OF word third]]]]]
  show ?thesis unfolding nameRegex_def
    using sound_sq[OF lit rest] by (rule sound_weaken) auto
qed

lemma noDigit_name: "noDigitRule (constRule nameRegex tok)"
  unfolding noDigitRule_def
proof (intro allI impI)
  fix p s n r assume "constRule nameRegex tok p s = Some (n, r)"
  then have "exec nameRegex p s = Some n" by (auto simp: constRule_def split: option.splits)
  from exec_sound[OF sound_name this]
  show "0 < n \<and> n \<le> length s \<and> over (\<lambda>c. \<not> isDigit c) (take n s)" by auto
qed

lemma noDigitRule_skips:
  assumes "noDigitRule m" and "\<forall>c \<in> set run. isDigit c" and "run \<noteq> []"
  shows "skips m run"
  unfolding skips_def
proof (intro conjI allI impI)
  fix p a post n r
  assume h: "m p (a @ run @ post) = Some (n, r)"
  with assms(1) have n: "0 < n" "over (\<lambda>c. \<not> isDigit c) (take n (a @ run @ post))"
    unfolding noDigitRule_def by blast+
  show "0 < n" by (rule n(1))
  obtain d ds where run: "run = d # ds" using assms(3) by (cases run) auto
  show "n \<le> length a"
  proof (rule ccontr)
    assume "\<not> n \<le> length a"
    then obtain j where j: "n = length a + Suc j" by (metis add_Suc_right less_imp_Suc_add not_le)
    then have "d \<in> set (take n (a @ run @ post))" by (simp add: run)
    then have "\<not> isDigit d" using n(2) unfolding over_def by blast
    then show False using assms(2) run by simp
  qed
next
  fix u v post
  assume uv: "run = u @ v" "u \<noteq> []" "v \<noteq> []"
  then obtain d ds where v: "v = d # ds" by (cases v) auto
  show "m (Some (last u)) (v @ post) = None"
  proof (cases "m (Some (last u)) (v @ post)")
    case (Some nr)
    obtain n r where "nr = (n, r)" by (cases nr)
    with Some assms(1) have n: "0 < n" "over (\<lambda>c. \<not> isDigit c) (take n (v @ post))"
      unfolding noDigitRule_def by blast+
    from n(1) obtain n' where "n = Suc n'" by (cases n) auto
    then have "d \<in> set (take n (v @ post))" by (simp add: v)
    then have "\<not> isDigit d" using n(2) unfolding over_def by blast
    then have False using assms(2) uv(1) v by simp
    then show ?thesis ..
  qed simp
qed

lemma digits_stage:
  assumes "digitRule hi m" and "\<forall>c \<in> set run. isDigit c" and "hi < length run"
  shows "\<exists>X. scan m None 0 (pre @ run @ post) = X @ run @ scan m (Some (last run)) 0 post"
proof -
  have "run \<noteq> []" using assms(3) by auto
  from skips_scan[OF digitRule_skips[OF assms] this, where k = 0 and pre = pre and p = None and post = post] show ?thesis by simp
qed

lemma redactDigits_run:
  assumes "\<forall>c \<in> set run. isDigit c" and "20 < length run"
  shows "\<exists>X. redactDigits (pre @ run @ post) =
           X @ run @ scan (constRule clabeRegex clabeToken) (Some (last run)) 0
             (scan (constRule accountNumberRegex accountToken) (Some (last run)) 0
               (scan (constRule creditCardRegex cardToken) (Some (last run)) 0 post))"
proof -
  let ?c = "constRule creditCardRegex cardToken"
  let ?a = "constRule accountNumberRegex accountToken"
  let ?b = "constRule clabeRegex clabeToken"
  let ?d = "Some (last run)"
  have l: "16 < length run" "20 < length run" "18 < length run" using assms(2) by simp_all
  from digits_stage[OF digitRule_card assms(1) l(1)] obtain X1 where
    1: "scan ?c None 0 (pre @ run @ post) = X1 @ run @ scan ?c ?d 0 post" by blast
  from digits_stage[OF digitRule_account assms(1) l(2)] obtain X2 where
    2: "scan ?a None 0 (X1 @ run @ scan ?c ?d 0 post) = X2 @ run @ scan ?a ?d 0 (scan ?c ?d 0 post)"
    by blast
  from digits_stage[OF digitRule_clabe assms(1) l(3)] obtain X3 where
    3: "scan ?b None 0 (X2 @ run @ scan ?a ?d 0 (scan ?c ?d 0 post))
        = X3 @ run @ scan ?b ?d 0 (scan ?a ?d 0 (scan ?c ?d 0 post))"
    by blast
  have "redactDigits (pre @ run @ post) = X3 @ run @ scan ?b ?d 0 (scan ?a ?d 0 (scan ?c ?d 0 post))"
    by (simp add: redactDigits_def replaceAll_def 1 2 3)
  then show ?thesis by (rule exI[of _ X3])
qed

lemma redactDigits_no_at: "64 \<notin> set text \<Longrightarrow> 64 \<notin> set (redactDigits text)"
proof -
  have t: "64 \<notin> set cardToken" "64 \<notin> set accountToken" "64 \<notin> set clabeToken"
    by (simp_all add: cardToken_def accountToken_def clabeToken_def js_def)
  have step: "64 \<notin> set tok \<Longrightarrow> 64 \<notin> set u \<Longrightarrow> 64 \<notin> set (scan (constRule r tok) None 0 u)" for tok u r
    using scan_addsNo[OF adds_const, of 64 tok r None 0 u] by blast
  assume "64 \<notin> set text"
  then show ?thesis
    unfolding redactDigits_def replaceAll_def Let_def
    by (intro step t)
qed

lemma sanitize_as_stages:
  "sanitizePersonalData text =
     scan (constRule nameRegex nameToken) None 0
       (scan (constRule emailRegex emailToken) None 0 (redactDigits text))"
  "text \<noteq> [] \<Longrightarrow> sanitizePersonalData_simple text =
       scan (constRule emailRegex emailToken) None 0 (redactDigits text)"
  by (simp_all add: sanitizePersonalData_def sanitizePersonalData_simple_def redactDigits_def
      replaceAll_def)


section \<open>Redaction: runs of more than 20 digits\<close>

text \<open>
  C2, as amended. Let \<open>run\<close> be more than 20 digits in a row, anywhere in a text
  \<open>pre @ run @ post\<close>. The card, account and CLABE replacements keep the run where it
  is: their result is some text, then the run, then what the three replacements make
  of \<open>post\<close> as a text that follows the last digit of the run. When neither \<open>pre\<close> nor
  \<open>post\<close> contains the character \<open>@\<close> (code unit 64) the same holds for both copies of
  \<open>sanitizePersonalData\<close>; in the copy of the normalisation library the rule for the
  holder's name runs over \<open>post\<close> as well.
\<close>

theorem long_digit_run_kept:
  assumes "\<forall>c \<in> set run. isDigit c" and "20 < length run"
  shows "(\<exists>X. redactDigits (pre @ run @ post) =
            X @ run @ scan (constRule clabeRegex clabeToken) (Some (last run)) 0
              (scan (constRule accountNumberRegex accountToken) (Some (last run)) 0
                (scan (constRule creditCardRegex cardToken) (Some (last run)) 0 post)))
       \<and> (64 \<notin> set pre \<and> 64 \<notin> set post \<longrightarrow>
            (\<exists>X. sanitizePersonalData_simple (pre @ run @ post) =
               X @ run @ scan (constRule clabeRegex clabeToken) (Some (last run)) 0
                 (scan (constRule accountNumberRegex accountToken) (Some (last run)) 0
                   (scan (constRule creditCardRegex cardToken) (Some (last run)) 0 post)))
          \<and> (\<exists>X. sanitizePersonalData (pre @ run @ post) =
               X @ run @ scan (constRule nameRegex nameToken) (Some (last run)) 0
                 (scan (constRule clabeRegex clabeToken) (Some (last run)) 0
                   (scan (constRule accountNumberRegex accountToken) (Some (last run)) 0
                     (scan (constRule creditCardRegex cardToken) (Some (last run)) 0 post)))))"
proof -
  let ?Y = "scan (constRule clabeRegex clabeToken) (Some (last run)) 0
              (scan (constRule accountNumberRegex accountToken) (Some (last run)) 0
                (scan (constRule creditCardRegex cardToken) (Some (last run)) 0 post))"
  let ?n = "constRule nameRegex nameToken"
  let ?t = "pre @ run @ post"
  from redactDigits_run[OF assms] obtain X where X: "redactDigits ?t = X @ run @ ?Y" by blast
  have ne: "run \<noteq> []" "?t \<noteq> []" using assms(2) by auto
  have digits: "\<exists>X. redactDigits ?t = X @ run @ ?Y" using X by (rule exI[of _ X])
  have rest: "(\<exists>X. sanitizePersonalData_simple ?t = X @ run @ ?Y)
      \<and> (\<exists>X. sanitizePersonalData ?t = X @ run @ scan ?n (Some (last run)) 0 ?Y)"
    if h: "64 \<notin> set pre \<and> 64 \<notin> set post"
  proof -
    have "64 \<notin> set run" using assms(1) by (auto simp: isDigit_def)
    then have "64 \<notin> set ?t" using h by simp
    then have "64 \<notin> set (redactDigits ?t)" by (rule redactDigits_no_at)
    then have e: "scan (constRule emailRegex emailToken) None 0 (redactDigits ?t) = X @ run @ ?Y"
      using needsChar_scan[OF needs_email] X by simp
    have s: "sanitizePersonalData_simple ?t = X @ run @ ?Y"
      using sanitize_as_stages(2)[OF ne(2)] e by simp
    from skips_scan[OF noDigitRule_skips[OF noDigit_name assms(1) ne(1)] ne(1), where k = 0 and pre = X and p = None and post = "?Y"]
    obtain X' where "scan ?n None 0 (X @ run @ ?Y) = X' @ run @ scan ?n (Some (last run)) 0 ?Y"
      by auto
    then have f: "sanitizePersonalData ?t = X' @ run @ scan ?n (Some (last run)) 0 ?Y"
      using sanitize_as_stages(1)[of ?t] e by simp
    have 1: "\<exists>X. sanitizePersonalData_simple ?t = X @ run @ ?Y" using s by (rule exI[of _ X])
    have 2: "\<exists>X. sanitizePersonalData ?t = X @ run @ scan ?n (Some (last run)) 0 ?Y"
      using f by (rule exI[of _ X'])
    from 1 2 show ?thesis by (rule conjI)
  qed
  from digits rest show ?thesis by blast
qed

theorem long_digit_run_kept_witness:
  "list_all isDigit (js ''123456789012345678901'')
   \<and> 20 < length (js ''123456789012345678901'')
   \<and> 64 \<notin> set (js ''Cuenta '') \<and> 64 \<notin> set (js '' fin'')
   \<and> (\<exists>X. sanitizePersonalData (js ''Cuenta '' @ js ''123456789012345678901'' @ js '' fin'')
          = X @ js ''123456789012345678901'' @ js '' fin'')
   \<and> sanitizePersonalData (js ''Cuenta 123456789012345678901 fin'')
       = js ''Cuenta 123456789012345678901 fin''"
proof -
  have h: "\<forall>c \<in> set (js ''123456789012345678901''). isDigit c"
    "20 < length (js ''123456789012345678901'')"
    "64 \<notin> set (js ''Cuenta '')" "64 \<notin> set (js '' fin'')"
    by (simp_all add: js_def isDigit_def)
  have l: "last (js ''123456789012345678901'') = 49" by (simp add: js_def)
  have t: "scan (constRule nameRegex nameToken) (Some 49) 0
             (scan (constRule clabeRegex clabeToken) (Some 49) 0
               (scan (constRule accountNumberRegex accountToken) (Some 49) 0
                 (scan (constRule creditCardRegex cardToken) (Some 49) 0 (js '' fin''))))
           = js '' fin''"
    by code_simp
  have v: "sanitizePersonalData (js ''Cuenta 123456789012345678901 fin'')
       = js ''Cuenta 123456789012345678901 fin''"
    by code_simp
  from long_digit_run_kept [of "js ''123456789012345678901''" "js ''Cuenta ''" "js '' fin''"] h
  have "\<exists>X. sanitizePersonalData (js ''Cuenta '' @ js ''123456789012345678901'' @ js '' fin'')
          = X @ js ''123456789012345678901'' @ js '' fin''"
    unfolding l t by blast
  with h v show ?thesis by (simp add: list_all_iff)
qed

text \<open>
  With an \<open>@\<close> behind it the run is not kept: the class of the e-mail expression
  contains the digits, so 21 digits in front of \<open>@x.co\<close> are the local part of an
  address and the whole text is replaced by the e-mail token, which has no digit.
\<close>

theorem digit_run_lost_in_email:
  "length (filter isDigit (js ''123456789012345678901'')) = 21
   \<and> sanitizePersonalData (js ''123456789012345678901@x.co'') = emailToken
   \<and> sanitizePersonalData_simple (js ''123456789012345678901@x.co'') = emailToken
   \<and> filter isDigit emailToken = []"
  by code_simp

end
